theory Spec2Isabelle
  imports Complex_Main "HOL-Library.FSet" "HOL-Library.Multiset" "HOL-Library.Log_Nat"
    "HOL-Library.List_Lexorder" "HOL-Library.Char_ord"
begin

section \<open>JavaScript values used by the id helpers\<close>

text \<open>
  A JavaScript string is modelled as a \<^typ>\<open>string\<close>, one \<^typ>\<open>char\<close> per code unit
  (code units above 255 are not represented; every function below treats them like any
  other character outside \<open>[A-Za-z0-9_-]\<close>). The numbers that the helpers produce are
  integers: counters are modelled as \<^typ>\<open>nat\<close>, hash numbers as \<^typ>\<open>int\<close> with the
  rounding of doubles written out.
\<close>

definition digit_char :: "nat \<Rightarrow> char" where
  "digit_char d = ''0123456789'' ! d"

text \<open>\<open>n + ""\<close> for a non-negative integer \<open>n\<close> below \<open>10 ^ 21\<close>: its decimal digits.\<close>

fun show_nat :: "nat \<Rightarrow> string" where
  "show_nat n = (if n < 10 then [digit_char n] else show_nat (n div 10) @ [digit_char (n mod 10)])"

declare show_nat.simps [simp del]

text \<open>\<open>n + ""\<close> for an integer \<open>n\<close>.\<close>

definition show_int :: "int \<Rightarrow> string" where
  "show_int i = (if i < 0 then CHR ''-'' # show_nat (nat (- i)) else show_nat (nat i))"

definition is_digit :: "char \<Rightarrow> bool" where
  "is_digit c = (c \<in> set ''0123456789'')"


definition is_hex_char :: "char \<Rightarrow> bool" where
  "is_hex_char c = (c \<in> set ''0123456789abcdef'')"

text \<open>The value of a string of decimal digits, read left to right.\<close>

definition decimal_value :: "string \<Rightarrow> nat" where
  "decimal_value s = foldl (\<lambda>r c. r * 10 + (of_char c - 48)) 0 s"

text \<open>
  \<open>createHash("md4")\<close>, \<open>update\<close> and \<open>digest("hex")\<close> come from the host platform and
  are a parameter \<open>md4 :: string \<Rightarrow> string\<close> of every function that hashes. What the
  platform guarantees of it: 32 lowercase hexadecimal characters.
\<close>

definition hex_digest :: "(string \<Rightarrow> string) \<Rightarrow> bool" where
  "hex_digest md4 = (\<forall>s. length (md4 s) = 32 \<and> list_all is_hex_char (md4 s))"

text \<open>
  The expression \<open>+str + ""\<close> (string to number, number back to string) is a primitive of
  the language. \<open>number_string\<close> gives its value on the strings where it is modelled,
  and \<open>None\<close> on the others:
  \<^item> the empty string converts to 0;
  \<^item> a string of 1 to 15 decimal digits converts to its value, which prints without
    leading zeros;
  \<^item> \<open>Infinity\<close>, \<open>+Infinity\<close> and \<open>-Infinity\<close> convert to the infinities;
  \<^item> every numeric literal but those holds a decimal digit, so a string with no digit
    and no white space converts to \<open>NaN\<close>;
  \<^item> so does a string holding a character that is neither white space nor part of any
    numeric literal.

  Signs, fractions, exponents, other radixes, surrounding white space and longer digit
  strings are not modelled.
\<close>

definition is_space :: "char \<Rightarrow> bool" where
  "is_space c = ((of_char c :: nat) \<in> {9, 10, 11, 12, 13, 32, 160})"

definition numeric_char :: "char \<Rightarrow> bool" where
  "numeric_char c = (c \<in> set ''0123456789+-.eExXoObBabcdefABCDEFInfity'')"

definition number_string :: "string \<Rightarrow> string option" where
  "number_string s =
     (if s = [] then Some ''0''
      else if list_all is_digit s \<and> length s \<le> 15 then Some (show_nat (decimal_value s))
      else if s = ''Infinity'' \<or> s = ''+Infinity'' then Some ''Infinity''
      else if s = ''-Infinity'' then Some ''-Infinity''
      else if \<not> list_ex is_digit s \<and> \<not> list_ex is_space s then Some ''NaN''
      else if list_ex (\<lambda>c. \<not> numeric_char c \<and> \<not> is_space c) s then Some ''NaN''
      else None)"

text \<open>
  A number is an IEEE double. The integers that arise here are far from the largest
  double; \<open>round_double\<close> is the double nearest to an integer, ties going to the even
  significand of 53 bits. Integers below \<open>2 ^ 53\<close> in absolute value are doubles.
\<close>

definition round_double :: "int \<Rightarrow> int" where
  "round_double n =
     (let a = \<bar>n\<bar>; e = bitlen a - 53 in
      if e \<le> 0 then n
      else
        (let u = 2 ^ nat e; q = a div u; r = a mod u;
             q' = (if 2 * r < u then q else if u < 2 * r then q + 1
                   else if even q then q else q + 1)
         in sgn n * (q' * u)))"

section \<open>Hash primitives\<close>

text \<open>\<open>getHash\<close>: \<open>hash.digest("hex").substr(0, len)\<close>.\<close>

definition getHash :: "(string \<Rightarrow> string) \<Rightarrow> string \<Rightarrow> nat \<Rightarrow> string" where
  "getHash md4 str len = take len (md4 str)"

text \<open>
  The loop of \<open>getHashNumber\<close> over the digest, with the accumulator \<open>result\<close> and the
  counter \<open>len\<close>; every product and sum is rounded to a double. It is run for
  \<open>1 \<le> len \<le> 20\<close>, where \<open>Math.pow(10, len - 1)\<close> is the exact power of ten.
\<close>

fun getHashNumber_loop :: "string \<Rightarrow> int \<Rightarrow> int \<Rightarrow> int" where
  "getHashNumber_loop [] result len =
     round_double (round_double (round_double (result * 10) + 1) * 10 ^ nat (len - 1))"
| "getHashNumber_loop (c # cs) result len =
     (if (of_char c :: int) < 58 then
        (if len - 1 < 1 then round_double (round_double (result * 10) + (of_char c - 48))
         else getHashNumber_loop cs
                (round_double (round_double (result * 10) + (of_char c - 48))) (len - 1))
      else getHashNumber_loop cs result len)"

text \<open>
  \<open>getHashNumber\<close> is modelled for the widths \<open>1 \<le> len \<le> 20\<close>, and is \<open>None\<close> outside:
  below 1 the result can be a fraction, and from 21 digits on a number prints in
  exponent form. Its caller passes a width of at most 15 for every array of items.
\<close>

definition getHashNumber :: "(string \<Rightarrow> string) \<Rightarrow> string \<Rightarrow> int \<Rightarrow> int option" where
  "getHashNumber md4 str len =
     (if 1 \<le> len \<and> len \<le> 20 then Some (getHashNumber_loop (md4 str) 0 len) else None)"

text \<open>The characters of a digest that the loop accumulates, and the accumulation.\<close>

definition decimal_chars :: "string \<Rightarrow> string" where
  "decimal_chars d = filter (\<lambda>c. (of_char c :: int) < 58) d"

definition accumulate :: "int \<Rightarrow> string \<Rightarrow> int" where
  "accumulate acc ds = foldl (\<lambda>r c. r * 10 + (of_char c - 48)) acc ds"

section \<open>Name derivation\<close>

text \<open>
  \<open>avoidNumber\<close>: \<open>if (str === +str + "") return `_${str}`; return str\<close>. It is \<open>None\<close>
  where the conversion is not modelled.
\<close>

definition avoidNumber :: "string \<Rightarrow> string option" where
  "avoidNumber str =
     (case number_string str of
        None \<Rightarrow> None
      | Some numStr \<Rightarrow> Some (if str = numStr then CHR ''_'' # str else str))"

text \<open>The character class \<open>[a-zA-Z0-9_-]\<close>.\<close>

definition id_char :: "char \<Rightarrow> bool" where
  "id_char c = (c \<in> set ''abcdefghijklmnopqrstuvwxyzABCDEFGHIJKLMNOPQRSTUVWXYZ0123456789_-'')"

text \<open>\<open>.replace(/^(\.\.?\/)+/, "")\<close>: leading \<open>./\<close> and \<open>../\<close> segments are removed.\<close>

function strip_relative :: "string \<Rightarrow> string" where
  "strip_relative s =
     (if take 2 s = ''./'' then strip_relative (drop 2 s)
      else if take 3 s = ''../'' then strip_relative (drop 3 s)
      else s)"
  by pat_completeness auto
termination
proof (relation "measure length")
  fix s :: string
  assume "take 2 s = ''./''"
  then have "s \<noteq> []" by auto
  then show "(drop 2 s, s) \<in> measure length" by simp
next
  fix s :: string
  assume "take 3 s = ''../''"
  then have "s \<noteq> []" by auto
  then show "(drop 3 s, s) \<in> measure length" by simp
qed simp

declare strip_relative.simps [simp del]

text \<open>
  \<open>.replace(/(^[.-]|[^a-zA-Z0-9_-])+/g, "_")\<close>: every maximal run of characters outside
  the class becomes one underscore. \<open>replace_runs\<close> scans from a position after the
  first, where \<open>^\<close> cannot match; \<open>replace_all\<close> starts at position 0, where a leading
  \<open>.\<close> or \<open>-\<close> opens a run as well.
\<close>

function replace_runs :: "string \<Rightarrow> string" where
  "replace_runs [] = []"
| "replace_runs (c # cs) =
     (if id_char c then c # replace_runs cs
      else CHR ''_'' # replace_runs (dropWhile (\<lambda>c. \<not> id_char c) cs))"
  by pat_completeness auto
termination
  by (relation "measure length") (auto simp: less_Suc_eq_le length_dropWhile_le)

definition replace_all :: "string \<Rightarrow> string" where
  "replace_all s =
     (case s of
        [] \<Rightarrow> []
      | c # cs \<Rightarrow>
          if c = CHR ''.'' \<or> c = CHR ''-'' \<or> \<not> id_char c
          then CHR ''_'' # replace_runs (dropWhile (\<lambda>c. \<not> id_char c) cs)
          else c # replace_runs cs)"

definition requestToId :: "string \<Rightarrow> string" where
  "requestToId request = replace_all (strip_relative request)"

text \<open>\<open>string.slice(0, e)\<close>: a negative end counts from the end of the string.\<close>

definition slice0 :: "string \<Rightarrow> int \<Rightarrow> string" where
  "slice0 s e = (if e < 0 then take (nat (int (length s) + e)) s else take (nat e) s)"

definition shortenLongString :: "(string \<Rightarrow> string) \<Rightarrow> string \<Rightarrow> string \<Rightarrow> string" where
  "shortenLongString md4 str delimiter =
     (if length str < 100 then str
      else slice0 str (100 - 6 - int (length delimiter)) @ delimiter @ getHash md4 str 6)"

section \<open>Modules, chunks and the host\<close>

text \<open>An id is a number or a string; \<open>ident_string\<close> is \<open>id + ""\<close>.\<close>

datatype ident = Num nat | Str string

fun ident_string :: "ident \<Rightarrow> string" where
  "ident_string (Num n) = show_nat n"
| "ident_string (Str s) = s"

text \<open>
  The fields of a \<open>Chunk\<close> that the helpers read or write. \<open>idNameHints\<close> is a sortable
  set: its elements in iteration order. The fields \<open>name\<close> and \<open>id\<close> are written \<open>name'\<close> and \<open>id'\<close>.
\<close>

record chunk =
  idNameHints :: "string list"
  name' :: "string option"
  id' :: "ident option"
  ids :: "ident list option"

text \<open>
  What the helpers call on modules and on the platform: the digest,
  \<open>module.libIdent({ context })\<close> (a string or null),
  \<open>module.identifier()\<close> and \<open>makePathsRelative(context, identifier)\<close>. The cache object
  passed along with the context is not modelled: it changes no result.
\<close>

record 'm host =
  hash_md4 :: "string \<Rightarrow> string"
  libIdent :: "'m \<Rightarrow> string \<Rightarrow> string option"
  moduleIdentifier :: "'m \<Rightarrow> string"
  makePathsRelative :: "string \<Rightarrow> string \<Rightarrow> string"

text \<open>\<open>Array.prototype.join\<close> on an array of strings.\<close>

fun join :: "string \<Rightarrow> string list \<Rightarrow> string" where
  "join d [] = []"
| "join d [x] = x"
| "join d (x # y # ys) = x @ d @ join d (y # ys)"

text \<open>
  Modelled from the spec: \<open>SortableSet.sort()\<close> is not among the sources; the spec has
  the chunk's \<open>idNameHints\<close> sorted before they are joined. With no comparator the
  order is that of the strings' code units, the lexicographic order on \<^typ>\<open>string\<close>.
\<close>

definition sort_hints :: "string list \<Rightarrow> string list" where
  "sort_hints hints = sort hints"

text \<open>A short module name is \<open>None\<close> where \<open>avoidNumber\<close> is.\<close>

definition getShortModuleName :: "'m host \<Rightarrow> 'm \<Rightarrow> string \<Rightarrow> string option" where
  "getShortModuleName h m context =
     avoidNumber (case libIdent h m context of None \<Rightarrow> [] | Some s \<Rightarrow> s)"

definition getFullModuleName :: "'m host \<Rightarrow> 'm \<Rightarrow> string \<Rightarrow> string" where
  "getFullModuleName h m context = makePathsRelative h context (moduleIdentifier h m)"

definition getLongModuleName :: "'m host \<Rightarrow> string \<Rightarrow> 'm \<Rightarrow> string \<Rightarrow> string" where
  "getLongModuleName h shortName m context =
     shortName @ ''?'' @ getHash (hash_md4 h) (getFullModuleName h m context) 4"

text \<open>
  Chunks are objects that the helpers mutate in place: a chunk is a handle \<open>'c\<close> into a
  store \<open>'c \<Rightarrow> chunk\<close>, and a function that writes a chunk returns the new store.
  \<open>chunkGraph\<close> is \<open>chunkGraph.getChunkRootModules\<close>. The name returned is \<open>None\<close> when
  the short name of a root module is; the chunk is written all the same.
\<close>

definition those_names :: "string option list \<Rightarrow> string list option" where
  "those_names names = (if list_all (\<lambda>n. n \<noteq> None) names then Some (map the names) else None)"

definition getShortChunkName ::
  "'m host \<Rightarrow> ('c \<Rightarrow> chunk) \<Rightarrow> 'c \<Rightarrow> ('c \<Rightarrow> 'm list) \<Rightarrow> string \<Rightarrow> string
     \<Rightarrow> string option \<times> ('c \<Rightarrow> chunk)" where
  "getShortChunkName h store c chunkGraph context delimiter =
     (let modules = chunkGraph c;
          shortModuleNames =
            those_names (map (\<lambda>m. map_option requestToId (getShortModuleName h m context)) modules);
          store' = store(c := (store c)\<lparr>idNameHints := sort_hints (idNameHints (store c))\<rparr>);
          chunkName = map_option (\<lambda>names. join delimiter (idNameHints (store' c) @ names))
                        shortModuleNames
      in (map_option (\<lambda>n. shortenLongString (hash_md4 h) n delimiter) chunkName, store'))"

definition getLongChunkName ::
  "'m host \<Rightarrow> ('c \<Rightarrow> chunk) \<Rightarrow> 'c \<Rightarrow> ('c \<Rightarrow> 'm list) \<Rightarrow> string \<Rightarrow> string
     \<Rightarrow> string option \<times> ('c \<Rightarrow> chunk)" where
  "getLongChunkName h store c chunkGraph context delimiter =
     (let modules = chunkGraph c;
          shortModuleNames =
            those_names (map (\<lambda>m. map_option requestToId (getShortModuleName h m context)) modules);
          longModuleNames = map (\<lambda>m. requestToId (getLongModuleName h [] m context)) modules;
          store' = store(c := (store c)\<lparr>idNameHints := sort_hints (idNameHints (store c))\<rparr>);
          chunkName = map_option
                        (\<lambda>names. join delimiter (idNameHints (store' c) @ names @ longModuleNames))
                        shortModuleNames
      in (map_option (\<lambda>n. shortenLongString (hash_md4 h) n delimiter) chunkName, store'))"

text \<open>\<open>getFullChunkName\<close>: the preset name when it is a non-empty string.\<close>

definition getFullChunkName ::
  "'m host \<Rightarrow> ('c \<Rightarrow> chunk) \<Rightarrow> 'c \<Rightarrow> ('c \<Rightarrow> 'm list) \<Rightarrow> string \<Rightarrow> string" where
  "getFullChunkName h store c chunkGraph context =
     (case name' (store c) of
        Some n \<Rightarrow> if n \<noteq> [] then n
                  else join '','' (map (\<lambda>m. makePathsRelative h context (moduleIdentifier h m)) (chunkGraph c))
      | None \<Rightarrow> join '','' (map (\<lambda>m. makePathsRelative h context (moduleIdentifier h m)) (chunkGraph c)))"

text \<open>A host and a store of chunks to run the chunk names on.\<close>

definition sample_host :: "nat host" where
  "sample_host =
     \<lparr>hash_md4 = (\<lambda>s. ''0123456789abcdef0123456789abcdef''),
      libIdent = (\<lambda>m context. Some ''./src/a.js''), moduleIdentifier = (\<lambda>m. ''/app/src/a.js''),
      makePathsRelative = (\<lambda>context i. i)\<rparr>"

definition sample_chunks :: "nat \<Rightarrow> chunk" where
  "sample_chunks = (\<lambda>c. \<lparr>idNameHints = [''b'', ''a''], name' = None, id' = None, ids = None\<rparr>)"

section \<open>SystemLibraryPlugin.parseOptions\<close>

text \<open>
  The \<open>name\<close> of a normalized library option is unset, a string, an array of strings,
  or an object with the names per module system (\<open>amd\<close>, \<open>commonjs\<close>, \<open>root\<close>).
\<close>

datatype library_name =
    Name_string string
  | Name_array "string list"
  | Name_object "string option" "string option" "string list option"

record library_options =
  library_name :: "library_name option"
  library_type :: string

datatype error = Error string

record system_parsed =
  parsed_name :: "string option"

text \<open>Truthiness of a name: arrays and objects are truthy, a string unless it is empty.\<close>

fun truthy :: "library_name option \<Rightarrow> bool" where
  "truthy None = False"
| "truthy (Some (Name_string s)) = (s \<noteq> [])"
| "truthy (Some (Name_array a)) = True"
| "truthy (Some (Name_object a c r)) = True"

fun is_string :: "library_name option \<Rightarrow> bool" where
  "is_string (Some (Name_string s)) = True"
| "is_string other = False"

text \<open>
  \<open>parseOptions\<close> reads its argument only. The state \<open>st\<close> stands for everything else
  that exists when it runs (the plugin, the compilation); it is returned as it was.
\<close>

definition parseOptions :: "'st \<Rightarrow> library_options \<Rightarrow> (error + system_parsed) \<times> 'st" where
  "parseOptions st library =
     (let name = library_name library in
      if truthy name \<and> \<not> is_string name
      then (Inl (Error ''System.js library name must be a simple string or unset''), st)
      else (Inr \<lparr>parsed_name = (case name of Some (Name_string s) \<Rightarrow> Some s | _ \<Rightarrow> None)\<rparr>, st))"

section \<open>Collections\<close>

text \<open>
  A \<open>Set\<close> of strings that is only tested and extended (\<open>usedIds\<close>) is a finite set.
  A \<open>Map\<close> from names to arrays of items is iterated in insertion order: it is a list
  of entries with distinct keys, a new key going to the end.
\<close>

type_synonym 'a name_map = "(string \<times> 'a list) list"

fun addToMapOfItems :: "'a name_map \<Rightarrow> string \<Rightarrow> 'a \<Rightarrow> 'a name_map" where
  "addToMapOfItems [] key value = [(key, [value])]"
| "addToMapOfItems ((k, array) # m) key value =
     (if k = key then (k, array @ [value]) # m else (k, array) # addToMapOfItems m key value)"

definition map_has :: "'a name_map \<Rightarrow> string \<Rightarrow> bool" where
  "map_has m key = (key \<in> fst ` set m)"

text \<open>
  \<open>Array.prototype.sort(comparator)\<close> is stable: elements that compare equal keep their
  order. For a comparator that is consistent every stable sort returns the same array;
  it is modelled by insertion, each element going before the first one it does not
  follow.
\<close>

fun insert_item :: "('a \<Rightarrow> 'a \<Rightarrow> int) \<Rightarrow> 'a \<Rightarrow> 'a list \<Rightarrow> 'a list" where
  "insert_item comparator x [] = [x]"
| "insert_item comparator x (y # ys) =
     (if comparator x y \<le> 0 then x # y # ys else y # insert_item comparator x ys)"

definition sort_items :: "('a \<Rightarrow> 'a \<Rightarrow> int) \<Rightarrow> 'a list \<Rightarrow> 'a list" where
  "sort_items comparator xs = foldr (insert_item comparator) xs []"

text \<open>A comparator that orders the items linearly: it returns 0 for identical items only.\<close>

definition total_order :: "('a \<Rightarrow> 'a \<Rightarrow> int) \<Rightarrow> bool" where
  "total_order comparator =
     ((\<forall>x y. comparator x y \<le> 0 \<or> comparator y x \<le> 0) \<and>
      (\<forall>x y. comparator x y \<le> 0 \<and> comparator y x \<le> 0 \<longrightarrow> x = y) \<and>
      (\<forall>x y z. comparator x y \<le> 0 \<and> comparator y z \<le> 0 \<longrightarrow> comparator x z \<le> 0))"

text \<open>A comparator on numbers, for running the assigners on items that are numbers.\<close>

definition compare_nat :: "nat \<Rightarrow> nat \<Rightarrow> int" where
  "compare_nat x y = (if x < y then - 1 else if x = y then 0 else 1)"

subsection \<open>Decimal strings can be read back\<close>

lemma of_char_digit_char: "d < 10 \<Longrightarrow> (of_char (digit_char d) :: nat) = 48 + d"
proof -
  assume "d < 10"
  then have "d = 0 \<or> d = 1 \<or> d = 2 \<or> d = 3 \<or> d = 4 \<or> d = 5 \<or> d = 6 \<or> d = 7 \<or> d = 8 \<or> d = 9"
    by arith
  then show ?thesis by (elim disjE) (simp_all add: digit_char_def)
qed

lemma decimal_value_show_nat: "decimal_value (show_nat n) = n"
proof (induction n rule: show_nat.induct)
  case (1 n)
  show ?case
  proof (cases "n < 10")
    case True
    then show ?thesis
      by (subst show_nat.simps) (simp add: decimal_value_def of_char_digit_char)
  next
    case False
    then have ih: "decimal_value (show_nat (n div 10)) = n div 10" using 1 by simp
    have "show_nat n = show_nat (n div 10) @ [digit_char (n mod 10)]"
      using False by (subst show_nat.simps) simp
    then have "decimal_value (show_nat n) = decimal_value (show_nat (n div 10)) * 10 + n mod 10"
      by (simp add: decimal_value_def of_char_digit_char)
    then show ?thesis using ih by simp
  qed
qed

lemma show_nat_inject: "(show_nat m = show_nat n) = (m = n)"
  by (metis decimal_value_show_nat)

lemma finite_suffixes: "finite {k. name @ show_nat k |\<in>| usedIds}"
proof -
  have "inj (\<lambda>k. name @ show_nat k)" by (simp add: inj_def show_nat_inject)
  then have "finite ((\<lambda>k. name @ show_nat k) -` fset usedIds)"
    by (intro finite_vimageI) simp_all
  then show ?thesis by (simp add: vimage_def)
qed

lemma fewer_suffixes:
  "name @ show_nat i |\<in>| usedIds \<Longrightarrow>
     card {k. Suc i \<le> k \<and> name @ show_nat k |\<in>| usedIds} < card {k. i \<le> k \<and> name @ show_nat k |\<in>| usedIds}"
proof (rule psubset_card_mono)
  show "finite {k. i \<le> k \<and> name @ show_nat k |\<in>| usedIds}"
    using finite_suffixes [of name usedIds] by (rule rev_finite_subset) auto
  assume "name @ show_nat i |\<in>| usedIds"
  then have "i \<in> {k. i \<le> k \<and> name @ show_nat k |\<in>| usedIds}" by simp
  moreover have "i \<notin> {k. Suc i \<le> k \<and> name @ show_nat k |\<in>| usedIds}" by simp
  ultimately have "{k. Suc i \<le> k \<and> name @ show_nat k |\<in>| usedIds}
      \<noteq> {k. i \<le> k \<and> name @ show_nat k |\<in>| usedIds}"
    by metis
  moreover have "{k. Suc i \<le> k \<and> name @ show_nat k |\<in>| usedIds}
      \<subseteq> {k. i \<le> k \<and> name @ show_nat k |\<in>| usedIds}"
    by auto
  ultimately show "{k. Suc i \<le> k \<and> name @ show_nat k |\<in>| usedIds}
      \<subset> {k. i \<le> k \<and> name @ show_nat k |\<in>| usedIds}"
    by (rule psubsetI [rotated])
qed

section \<open>assignNames\<close>

text \<open>
  \<open>while (nameToItems2.has(name + i) && usedIds.has(name + i)) i++\<close>: the value of \<open>i\<close>
  after the loop.
\<close>

function free_suffix :: "'a name_map \<Rightarrow> string fset \<Rightarrow> string \<Rightarrow> nat \<Rightarrow> nat" where
  "free_suffix nameToItems2 usedIds name i =
     (if map_has nameToItems2 (name @ show_nat i) \<and> name @ show_nat i |\<in>| usedIds
      then free_suffix nameToItems2 usedIds name (i + 1)
      else i)"
  by pat_completeness auto
termination
  by (relation "measure (\<lambda>(m, usedIds, name, i). card {k. i \<le> k \<and> name @ show_nat k |\<in>| usedIds})")
    (auto simp: fewer_suffixes)

declare free_suffix.simps [simp del]

text \<open>
  The callback \<open>assignName\<close> acts on a state \<open>'s\<close> of the caller. The inner loop over a
  sorted bucket carries \<open>i\<close>, \<open>usedIds\<close> and that state.
\<close>

fun assign_suffixes ::
  "'a name_map \<Rightarrow> ('a \<Rightarrow> string \<Rightarrow> 's \<Rightarrow> 's) \<Rightarrow> string \<Rightarrow> 'a list \<Rightarrow> nat \<Rightarrow> string fset \<times> 's
     \<Rightarrow> string fset \<times> 's" where
  "assign_suffixes nameToItems2 assignName name [] i (usedIds, st) = (usedIds, st)"
| "assign_suffixes nameToItems2 assignName name (item # items) i (usedIds, st) =
     (let j = free_suffix nameToItems2 usedIds name i in
      assign_suffixes nameToItems2 assignName name items (j + 1)
        (finsert (name @ show_nat j) usedIds, assignName item (name @ show_nat j) st))"

text \<open>One entry of \<open>nameToItems2\<close> in the third loop; the state also holds \<open>unnamedItems\<close>.\<close>

definition resolve_entry ::
  "'a name_map \<Rightarrow> ('a \<Rightarrow> 'a \<Rightarrow> int) \<Rightarrow> ('a \<Rightarrow> string \<Rightarrow> 's \<Rightarrow> 's) \<Rightarrow> string \<times> 'a list
     \<Rightarrow> string fset \<times> 's \<times> 'a list \<Rightarrow> string fset \<times> 's \<times> 'a list" where
  "resolve_entry nameToItems2 comparator assignName entry state =
     (case (entry, state) of ((name, items), (usedIds, st, unnamedItems)) \<Rightarrow>
        if name = [] then (usedIds, st, unnamedItems @ items)
        else if length items = 1 \<and> name |\<notin>| usedIds
        then (finsert name usedIds, assignName (items ! 0) name st, unnamedItems)
        else (case assign_suffixes nameToItems2 assignName name (sort_items comparator items) 0
                     (usedIds, st) of
                (usedIds', st') \<Rightarrow> (usedIds', st', unnamedItems)))"

text \<open>One entry of \<open>nameToItems\<close> in the second loop. Every array of the map is non-empty.\<close>

definition regroup_entry ::
  "('a \<Rightarrow> string \<Rightarrow> string) \<Rightarrow> string \<times> 'a list \<Rightarrow> 'a name_map \<Rightarrow> 'a name_map" where
  "regroup_entry getLongName entry nameToItems2 =
     (case entry of (name, items) \<Rightarrow>
        if length items > 1 \<or> name = []
        then fold (\<lambda>item m. addToMapOfItems m (getLongName item name) item) items nameToItems2
        else addToMapOfItems nameToItems2 name (items ! 0))"

text \<open>
  \<open>assignNames\<close> returns the unnamed items; the model also returns \<open>usedIds\<close>, which the
  function extends in place, and the caller's state after the calls of \<open>assignName\<close>.
\<close>

definition assignNames ::
  "'a list \<Rightarrow> ('a \<Rightarrow> string) \<Rightarrow> ('a \<Rightarrow> string \<Rightarrow> string) \<Rightarrow> ('a \<Rightarrow> 'a \<Rightarrow> int) \<Rightarrow> string fset
     \<Rightarrow> ('a \<Rightarrow> string \<Rightarrow> 's \<Rightarrow> 's) \<Rightarrow> 's \<Rightarrow> 'a list \<times> string fset \<times> 's" where
  "assignNames items getShortName getLongName comparator usedIds assignName st =
     (let nameToItems = fold (\<lambda>item m. addToMapOfItems m (getShortName item) item) items [];
          nameToItems2 = fold (regroup_entry getLongName) nameToItems []
      in case fold (resolve_entry nameToItems2 comparator assignName) nameToItems2 (usedIds, st, []) of
           (usedIds', st', unnamedItems) \<Rightarrow> (sort_items comparator unnamedItems, usedIds', st'))"

text \<open>The callback that records each call: the commitments of a pass, in order.\<close>

definition record_call :: "'a \<Rightarrow> 'v \<Rightarrow> ('a \<times> 'v) list \<Rightarrow> ('a \<times> 'v) list" where
  "record_call item v calls = calls @ [(item, v)]"

section \<open>assignDeterministicIds\<close>

text \<open>
  \<open>Math.ceil(Math.log10(n * 1.25 + 1))\<close> is the least \<open>k\<close> with \<open>n * 1.25 + 1 \<le> 10 ^ k\<close>,
  that is with \<open>5 * n + 4 \<le> 4 * 10 ^ k\<close>; \<open>least_width n k\<close> searches it from \<open>k\<close> upwards.
\<close>

function least_width :: "nat \<Rightarrow> nat \<Rightarrow> nat" where
  "least_width n k = (if 5 * n + 4 \<le> 4 * 10 ^ k then k else least_width n (k + 1))"
  by pat_completeness auto
termination
proof (relation "measure (\<lambda>(n, k). 5 * n + 4 - 4 * 10 ^ k)")
  fix n k :: nat
  assume "\<not> 5 * n + 4 \<le> 4 * 10 ^ k"
  moreover have "(0::nat) < 10 ^ k" by simp
  ultimately have "5 * n + 4 - 40 * 10 ^ k < 5 * n + 4 - 4 * 10 ^ k" by arith
  then show "((n, k + 1), (n, k)) \<in> measure (\<lambda>(n, k). 5 * n + 4 - 4 * 10 ^ k)" by simp
qed simp

declare least_width.simps [simp del]

definition optimalLength :: "nat \<Rightarrow> nat" where
  "optimalLength n = least_width n 0"

text \<open>
  \<open>do { id = getHashNumber(ident + i++, usedMaxLength) } while (usedIds.has(id + ""))\<close>,
  with \<open>n\<close> for \<open>id\<close>. The loop has no bound on its retries: it is a partial function, \<open>None\<close> when it does
  not return, and also where \<open>getHashNumber\<close> is not modelled.
\<close>

partial_function (option) probe ::
  "(string \<Rightarrow> string) \<Rightarrow> string fset \<Rightarrow> string \<Rightarrow> int \<Rightarrow> nat \<Rightarrow> int option" where
  "probe md4 usedIds ident usedMaxLength i =
     (case getHashNumber md4 (ident @ show_nat i) usedMaxLength of
        None \<Rightarrow> None
      | Some n \<Rightarrow>
          if show_int n |\<in>| usedIds then probe md4 usedIds ident usedMaxLength (i + 1)
          else Some n)"

fun assign_ids ::
  "(string \<Rightarrow> string) \<Rightarrow> ('a \<Rightarrow> string) \<Rightarrow> int \<Rightarrow> ('a \<Rightarrow> int \<Rightarrow> 's \<Rightarrow> 's) \<Rightarrow> 'a list
     \<Rightarrow> string fset \<times> 's \<Rightarrow> (string fset \<times> 's) option" where
  "assign_ids md4 getName usedMaxLength assignId [] (usedIds, st) = Some (usedIds, st)"
| "assign_ids md4 getName usedMaxLength assignId (item # items) (usedIds, st) =
     (case probe md4 usedIds (getName item) usedMaxLength 0 of
        None \<Rightarrow> None
      | Some n \<Rightarrow>
          assign_ids md4 getName usedMaxLength assignId items
            (finsert (show_int n) usedIds, assignId item n st))"

text \<open>
  \<open>maxLength\<close> is a number or absent. The result holds the array \<open>items\<close>, which the
  function sorts in place, \<open>usedIds\<close> and the caller's state; \<open>None\<close> when a probe does not
  return.
\<close>

definition assignDeterministicIds ::
  "(string \<Rightarrow> string) \<Rightarrow> 'a list \<Rightarrow> ('a \<Rightarrow> string) \<Rightarrow> ('a \<Rightarrow> 'a \<Rightarrow> int) \<Rightarrow> int option \<Rightarrow> string fset
     \<Rightarrow> ('a \<Rightarrow> int \<Rightarrow> 's \<Rightarrow> 's) \<Rightarrow> 's \<Rightarrow> ('a list \<times> string fset \<times> 's) option" where
  "assignDeterministicIds md4 items getName comparator maxLength usedIds assignId st =
     (let items' = sort_items comparator items;
          optimal = int (optimalLength (length items'));
          usedMaxLength = max (min (case maxLength of Some n \<Rightarrow> n | None \<Rightarrow> 0) 15) optimal
      in case assign_ids md4 getName usedMaxLength assignId items' (usedIds, st) of
           None \<Rightarrow> None
         | Some (usedIds', st') \<Rightarrow> Some (items', usedIds', st'))"

section \<open>Ascending ids\<close>

text \<open>
  A compilation: the reserved ids (a set, or absent), the modules and the chunks in
  iteration order, the module ids kept by the chunk graph, and the store of chunks.
\<close>

record ('m, 'c) compilation =
  usedModuleIds :: "ident fset option"
  usedChunkIds :: "ident fset option"
  modules :: "'m list"
  chunks :: "'c list"
  moduleId :: "'m \<Rightarrow> ident option"
  chunkStore :: "'c \<Rightarrow> chunk"

definition getUsedModuleIds :: "('m, 'c) compilation \<Rightarrow> string fset" where
  "getUsedModuleIds compilation =
     (case usedModuleIds compilation of None \<Rightarrow> {||} | Some used \<Rightarrow> ident_string |`| used) |\<union>|
     fset_of_list (map ident_string (List.map_filter (moduleId compilation) (modules compilation)))"

definition getUsedChunkIds :: "('m, 'c) compilation \<Rightarrow> string fset" where
  "getUsedChunkIds compilation =
     (case usedChunkIds compilation of None \<Rightarrow> {||} | Some used \<Rightarrow> ident_string |`| used) |\<union>|
     fset_of_list (map ident_string
       (List.map_filter (\<lambda>c. id' (chunkStore compilation c)) (chunks compilation)))"

text \<open>\<open>while (usedIds.has(nextId + "")) nextId++\<close>: the value of \<open>nextId\<close> after the loop.\<close>

function next_unused :: "string fset \<Rightarrow> nat \<Rightarrow> nat" where
  "next_unused usedIds nextId =
     (if show_nat nextId |\<in>| usedIds then next_unused usedIds (nextId + 1) else nextId)"
  by pat_completeness auto
termination
  by (relation "measure (\<lambda>(usedIds, i). card {k. i \<le> k \<and> [] @ show_nat k |\<in>| usedIds})")
    (use fewer_suffixes [of "[]"] in auto)

declare next_unused.simps [simp del]

text \<open>The two closures \<open>assignId\<close>, on the counter \<open>nextId\<close> and the module ids.\<close>

definition assignId_skipping ::
  "string fset \<Rightarrow> 'm \<Rightarrow> nat \<times> ('m \<Rightarrow> ident option) \<Rightarrow> nat \<times> ('m \<Rightarrow> ident option)" where
  "assignId_skipping usedIds m state =
     (case state of (nextId, getModuleId) \<Rightarrow>
        if getModuleId m = None
        then (let n = next_unused usedIds nextId in (n + 1, getModuleId(m \<mapsto> Num n)))
        else (nextId, getModuleId))"

definition assignId_counting ::
  "'m \<Rightarrow> nat \<times> ('m \<Rightarrow> ident option) \<Rightarrow> nat \<times> ('m \<Rightarrow> ident option)" where
  "assignId_counting m state =
     (case state of (nextId, getModuleId) \<Rightarrow>
        if getModuleId m = None then (nextId + 1, getModuleId(m \<mapsto> Num nextId))
        else (nextId, getModuleId))"

definition assignAscendingModuleIds :: "'m list \<Rightarrow> ('m, 'c) compilation \<Rightarrow> ('m, 'c) compilation" where
  "assignAscendingModuleIds ms compilation =
     (let usedIds = getUsedModuleIds compilation;
          assignId = (if usedIds \<noteq> {||} then assignId_skipping usedIds else assignId_counting)
      in compilation\<lparr>moduleId := snd (fold assignId ms (0, moduleId compilation))\<rparr>)"

text \<open>The bodies of the two loops of \<open>assignAscendingChunkIds\<close>.\<close>

definition assignChunk_skipping ::
  "string fset \<Rightarrow> 'c \<Rightarrow> nat \<times> ('c \<Rightarrow> chunk) \<Rightarrow> nat \<times> ('c \<Rightarrow> chunk)" where
  "assignChunk_skipping usedIds c state =
     (case state of (nextId, store) \<Rightarrow>
        if id' (store c) = None
        then (let n = next_unused usedIds nextId in
              (n + 1, store(c := (store c)\<lparr>id' := Some (Num n), ids := Some [Num n]\<rparr>)))
        else (nextId, store))"

definition assignChunk_counting :: "'c \<Rightarrow> nat \<times> ('c \<Rightarrow> chunk) \<Rightarrow> nat \<times> ('c \<Rightarrow> chunk)" where
  "assignChunk_counting c state =
     (case state of (nextId, store) \<Rightarrow>
        if id' (store c) = None
        then (nextId + 1, store(c := (store c)\<lparr>id' := Some (Num nextId), ids := Some [Num nextId]\<rparr>))
        else (nextId, store))"

definition assignAscendingChunkIds :: "'c list \<Rightarrow> ('m, 'c) compilation \<Rightarrow> ('m, 'c) compilation" where
  "assignAscendingChunkIds cs compilation =
     (let usedIds = getUsedChunkIds compilation in
      if usedIds \<noteq> {||}
      then compilation\<lparr>chunkStore :=
             snd (fold (assignChunk_skipping usedIds) cs (0, chunkStore compilation))\<rparr>
      else compilation\<lparr>chunkStore :=
             snd (fold assignChunk_counting cs (0, chunkStore compilation))\<rparr>)"

text \<open>
  A compilation to run the ascending assigners on: the chunk ids 0, 1 and 3 are reserved,
  three chunks have no id, module 1 has the id \<open>main\<close> and module 2 has none.
\<close>

definition sample_compilation :: "(nat, nat) compilation" where
  "sample_compilation =
     \<lparr>usedModuleIds = None, usedChunkIds = Some {|Num 0, Num 1, Num 3|},
      modules = [1, 2], chunks = [10, 11, 12], moduleId = [1 \<mapsto> Str ''main''],
      chunkStore = (\<lambda>c. \<lparr>idNameHints = [], name' = None, id' = None, ids = None\<rparr>)\<rparr>"

section \<open>Values of decimal digits\<close>

lemma is_digit_code: "is_digit c \<Longrightarrow> 48 \<le> (of_char c :: nat) \<and> (of_char c :: nat) \<le> 57"
  by (auto simp: is_digit_def)

lemma digit_step_int:
  "48 \<le> (of_char c :: nat) \<Longrightarrow>
     int a * 10 + ((of_char c :: int) - 48) = int (a * 10 + ((of_char c :: nat) - 48))"
  by (simp add: of_nat_diff of_nat_of_char)

lemma accumulate_digits:
  "list_all is_digit ds \<Longrightarrow>
     accumulate (int a) ds = int (foldl (\<lambda>r c. r * 10 + (of_char c - 48)) a ds)"
proof (induction ds arbitrary: a)
  case Nil
  then show ?case by (simp add: accumulate_def)
next
  case (Cons c ds)
  then have c: "48 \<le> (of_char c :: nat)" and ds: "list_all is_digit ds"
    using is_digit_code [of c] by auto
  have "accumulate (int a) (c # ds) = accumulate (int a * 10 + (of_char c - 48)) ds"
    by (simp add: accumulate_def)
  also have "\<dots> = accumulate (int (a * 10 + (of_char c - 48))) ds"
    by (simp only: digit_step_int [OF c])
  also have "\<dots> = int (foldl (\<lambda>r c. r * 10 + (of_char c - 48)) (a * 10 + (of_char c - 48)) ds)"
    by (rule Cons.IH [OF ds])
  finally show ?case by simp
qed

lemma foldl_digits_bound:
  "list_all is_digit ds \<Longrightarrow>
     foldl (\<lambda>r c. r * 10 + (of_char c - 48)) (a::nat) ds < (a + 1) * 10 ^ length ds"
proof (induction ds arbitrary: a)
  case Nil
  then show ?case by simp
next
  case (Cons c ds)
  then have c: "(of_char c :: nat) - 48 \<le> 9" and ds: "list_all is_digit ds"
    using is_digit_code [of c] by auto
  have "foldl (\<lambda>r c. r * 10 + (of_char c - 48)) (a * 10 + (of_char c - 48)) ds
          < (a * 10 + (of_char c - 48) + 1) * 10 ^ length ds"
    by (rule Cons.IH [OF ds])
  also have "\<dots> \<le> ((a + 1) * 10) * 10 ^ length ds"
    using c by (intro mult_right_mono) auto
  finally show ?case by (simp add: algebra_simps)
qed

lemma decimal_value_bound: "list_all is_digit ds \<Longrightarrow> decimal_value ds < 10 ^ length ds"
  using foldl_digits_bound [of ds 0] by (simp add: decimal_value_def)

lemma accumulate_decimal_value:
  "list_all is_digit ds \<Longrightarrow> accumulate 0 ds = int (decimal_value ds)"
  using accumulate_digits [of ds 0] by (simp add: decimal_value_def)

section \<open>getHashNumber\<close>

lemma is_hex_char_cases:
  "is_hex_char c \<Longrightarrow> ((of_char c :: int) < 58) = is_digit c"
  unfolding is_hex_char_def is_digit_def
  by (simp only: set_simps insert_iff empty_iff) (elim disjE; simp)

lemma hex_decimal_chars:
  "list_all is_hex_char d \<Longrightarrow> decimal_chars d = filter is_digit d"
  unfolding decimal_chars_def
  by (rule filter_cong) (simp_all add: list_all_iff is_hex_char_cases)

lemma round_double_id: "\<bar>n\<bar> < 2 ^ 53 \<Longrightarrow> round_double n = n"
proof -
  assume "\<bar>n\<bar> < 2 ^ 53"
  then have "bitlen \<bar>n\<bar> \<le> 53" by (simp add: bitlen_le_iff_power)
  then show ?thesis by (simp add: round_double_def Let_def)
qed

lemma round_double_small:
  assumes "0 \<le> x" "x < 10 ^ k" "k \<le> 15"
  shows "round_double x = x"
proof -
  have "(10::int) ^ k \<le> 10 ^ 15" using assms(3) by (intro power_increasing) simp_all
  also have "\<dots> < 2 ^ 53" by simp
  finally have "x < 2 ^ 53" using assms(2) by simp
  then show ?thesis using assms(1) by (intro round_double_id) simp
qed

lemma hex_digit_value:
  assumes "is_hex_char c" "(of_char c :: int) < 58"
  shows "0 \<le> (of_char c :: int) - 48 \<and> (of_char c :: int) - 48 \<le> 9"
proof -
  have "is_digit c" using assms by (simp add: is_hex_char_cases)
  then have "48 \<le> (of_char c :: nat) \<and> (of_char c :: nat) \<le> 57" by (rule is_digit_code)
  then have "48 \<le> int (of_char c) \<and> int (of_char c) \<le> 57" by simp
  then show ?thesis by (simp add: of_nat_of_char)
qed

text \<open>
  What the loop returns while every value stays below \<open>10 ^ 15\<close>, where no rounding
  occurs: with \<open>ds\<close> the characters below code 58 in scan order, the accumulation of the
  first \<open>len\<close> of them when there are that many, and otherwise the accumulation of all of
  them, times ten plus one, scaled by the power of ten of the missing width less one.
\<close>

lemma getHashNumber_loop_eq:
  assumes "list_all is_hex_char cs" "1 \<le> len" "0 \<le> acc" "acc < 10 ^ j" "j + nat len \<le> 15"
  shows "getHashNumber_loop cs acc len =
     (if nat len \<le> length (decimal_chars cs) then accumulate acc (take (nat len) (decimal_chars cs))
      else (accumulate acc (decimal_chars cs) * 10 + 1) * 10 ^ (nat len - length (decimal_chars cs) - 1))"
  using assms
proof (induction cs arbitrary: acc len j)
  case Nil
  have j1: "Suc j \<le> 15" using Nil.prems(2,5) by simp
  have a10: "acc * 10 < 10 ^ Suc j" using Nil.prems(4) by simp
  have r1: "round_double (acc * 10) = acc * 10"
    using Nil.prems(3) a10 j1 by (intro round_double_small [where k = "Suc j"]) simp_all
  have a11: "acc * 10 + 1 < 10 ^ Suc j" using Nil.prems(4) by simp
  have r2: "round_double (acc * 10 + 1) = acc * 10 + 1"
    using Nil.prems(3) a11 j1 by (intro round_double_small [where k = "Suc j"]) simp_all
  have "(acc * 10 + 1) * 10 ^ nat (len - 1) < 10 ^ Suc j * 10 ^ nat (len - 1)"
    using a11 by (intro mult_strict_right_mono) simp_all
  also have "\<dots> = 10 ^ (Suc j + nat (len - 1))" by (simp add: power_add)
  finally have p: "(acc * 10 + 1) * 10 ^ nat (len - 1) < 10 ^ (Suc j + nat (len - 1))" .
  have "Suc j + nat (len - 1) \<le> 15" using Nil.prems(2,5) by simp
  then have r3: "round_double ((acc * 10 + 1) * 10 ^ nat (len - 1)) = (acc * 10 + 1) * 10 ^ nat (len - 1)"
    using Nil.prems(3) p by (intro round_double_small [where k = "Suc j + nat (len - 1)"]) simp_all
  have e: "nat len - Suc 0 = nat (len - 1)" using Nil.prems(2) by simp
  show ?case
    unfolding getHashNumber_loop.simps r1 r2 r3
    using Nil.prems(2) by (simp add: decimal_chars_def accumulate_def e)
next
  case (Cons c cs)
  from Cons.prems(1) have hc: "is_hex_char c" and hcs: "list_all is_hex_char cs" by simp_all
  show ?case
  proof (cases "(of_char c :: int) < 58")
    case False
    then show ?thesis
      using Cons.IH [OF hcs Cons.prems(2,3,4,5)] by (simp add: decimal_chars_def accumulate_def)
  next
    case True
    define x where "x = acc * 10 + ((of_char c :: int) - 48)"
    have d: "0 \<le> (of_char c :: int) - 48" "(of_char c :: int) - 48 \<le> 9"
      using hex_digit_value [OF hc True] by simp_all
    have j1: "Suc j \<le> 15" using Cons.prems(2,5) by simp
    have a10: "acc * 10 < 10 ^ Suc j" using Cons.prems(4) by simp
    have r1: "round_double (acc * 10) = acc * 10"
      using Cons.prems(3) a10 j1 by (intro round_double_small [where k = "Suc j"]) simp_all
    have x0: "0 \<le> x" using Cons.prems(3) d by (simp add: x_def)
    have xb: "x < 10 ^ Suc j" using Cons.prems(4) d by (simp add: x_def)
    have r2: "round_double x = x"
      using x0 xb j1 by (intro round_double_small [where k = "Suc j"]) simp_all
    show ?thesis
    proof (cases "len = 1")
      case True
      with \<open>of_char c < 58\<close> show ?thesis
        using r1 r2 by (simp add: decimal_chars_def accumulate_def x_def)
    next
      case False
      with Cons.prems have l: "1 \<le> len - 1" by simp
      have n: "nat len = Suc (nat (len - 1))" using l by simp
      have jl: "Suc j + nat (len - 1) \<le> 15" using Cons.prems(5) n by simp
      show ?thesis
        using True l Cons.IH [OF hcs l x0 xb jl] r1 r2
        unfolding n by (simp add: decimal_chars_def accumulate_def x_def)
    qed
  qed
qed

text \<open>
  C6 (as amended). For a hexadecimal digest and \<open>1 \<le> len \<le> 15\<close>, \<open>getHashNumber\<close>
  returns a non-negative integer below \<open>10 ^ len\<close>. With \<open>ds\<close> the decimal digits of the
  digest in scan order: when the digest holds at least \<open>len\<close> of them the result is the
  number written by the first \<open>len\<close> digits; when \<open>k = len - |ds| \<ge> 1\<close> digits are missing
  it is \<open>(value ds * 10 + 1) * 10 ^ (k - 1)\<close>.
\<close>

theorem getHashNumber_bounded:
  assumes len: "1 \<le> len" "len \<le> 15" and hex: "list_all is_hex_char (md4 str)"
  shows "getHashNumber md4 str len =
      Some (let ds = filter is_digit (md4 str); k = nat len - length ds in
            if nat len \<le> length ds then int (decimal_value (take (nat len) ds))
            else (int (decimal_value ds) * 10 + 1) * 10 ^ (k - 1)) \<and>
    (\<forall>n. getHashNumber md4 str len = Some n \<longrightarrow> 0 \<le> n \<and> n < 10 ^ nat len)"
proof -
  define ds where "ds = filter is_digit (md4 str)"
  define v where "v = (if nat len \<le> length ds then int (decimal_value (take (nat len) ds))
       else (int (decimal_value ds) * 10 + 1) * 10 ^ (nat len - length ds - 1))"
  have dc: "decimal_chars (md4 str) = ds"
    using hex by (simp add: hex_decimal_chars ds_def)
  have all: "list_all is_digit ds" by (simp add: ds_def list_all_iff)
  have allt: "list_all is_digit (take (nat len) ds)"
    using all by (auto simp: list_all_iff dest: in_set_takeD)
  have "getHashNumber_loop (md4 str) 0 len = v"
    unfolding v_def
    using getHashNumber_loop_eq [OF hex len(1), of 0 0] len(2)
    by (simp add: dc accumulate_decimal_value all allt)
  then have eq: "getHashNumber md4 str len = Some v"
    using len by (simp add: getHashNumber_def)
  have bound: "v < 10 ^ nat len"
  proof (cases "nat len \<le> length ds")
    case True
    then have "length (take (nat len) ds) = nat len" by simp
    then have "decimal_value (take (nat len) ds) < 10 ^ nat len"
      using decimal_value_bound [OF allt] by simp
    then have "int (decimal_value (take (nat len) ds)) < 10 ^ nat len"
      by (metis of_nat_less_iff of_nat_numeral of_nat_power)
    with True show ?thesis by (simp add: v_def)
  next
    case False
    define k where "k = nat len - length ds"
    have k: "1 \<le> k" "nat len = length ds + 1 + (k - 1)" using False by (auto simp: k_def)
    have "decimal_value ds + 1 \<le> 10 ^ length ds"
      using decimal_value_bound [OF all] by simp
    then have "decimal_value ds * 10 + 1 < 10 ^ length ds * 10" by simp
    then have "(decimal_value ds * 10 + 1) * 10 ^ (k - 1) < (10 ^ length ds * 10) * 10 ^ (k - 1)"
      by (intro mult_strict_right_mono) auto
    also have "\<dots> = 10 ^ nat len" by (subst k(2)) (simp add: power_add)
    finally have "int ((decimal_value ds * 10 + 1) * 10 ^ (k - 1)) < int (10 ^ nat len)"
      by (simp only: of_nat_less_iff)
    then have "(int (decimal_value ds) * 10 + 1) * 10 ^ (k - 1) < 10 ^ nat len"
      by (simp add: algebra_simps)
    then show ?thesis using False by (simp add: k_def v_def)
  qed
  have nonneg: "0 \<le> v" by (simp add: v_def)
  have "getHashNumber md4 str len =
      Some (let ds = filter is_digit (md4 str); k = nat len - length ds in
            if nat len \<le> length ds then int (decimal_value (take (nat len) ds))
            else (int (decimal_value ds) * 10 + 1) * 10 ^ (k - 1))"
    unfolding eq by (simp add: v_def ds_def Let_def)
  moreover have "\<forall>n. getHashNumber md4 str len = Some n \<longrightarrow> 0 \<le> n \<and> n < 10 ^ nat len"
    unfolding eq using nonneg bound by simp
  ultimately show ?thesis by (rule conjI)
qed

theorem getHashNumber_bounded_witness:
  "(1::int) \<le> 2 \<and> (2::int) \<le> 15 \<and> list_all is_hex_char ''9ab3f'' \<and>
   getHashNumber (\<lambda>s. ''9ab3f'') ''x'' 2 = Some 93 \<and> (0::int) \<le> 93 \<and> (93::int) < 10 ^ nat 2 \<and>
   getHashNumber (\<lambda>s. ''9ab3f'') ''x'' 4 = Some 9310"
proof -
  have h: "list_all is_hex_char ((\<lambda>s. ''9ab3f'') ''x'')" by (simp add: is_hex_char_def)
  have l: "(1::int) \<le> 2" "(2::int) \<le> 15" by simp_all
  note t = getHashNumber_bounded [of 2 "\<lambda>s. ''9ab3f''" "''x''", OF l h]
  have v2: "getHashNumber (\<lambda>s. ''9ab3f'') ''x'' 2 = Some 93"
    using t [THEN conjunct1] by (simp add: is_digit_def decimal_value_def)
  have v4: "getHashNumber (\<lambda>s. ''9ab3f'') ''x'' 4 = Some 9310" by code_simp
  from t [THEN conjunct2] v2 have "(0::int) \<le> 93 \<and> (93::int) < 10 ^ nat 2" by blast
  with h l v2 v4 show ?thesis by simp
qed

lemma digits_of_digest_a:
  "filter is_digit ''bde52cb31de33e46245e05fbdbd6fb24'' = ''5231334624505624''"
  by (simp add: is_digit_def)

lemma value_of_digest_a: "decimal_value ''5231334624505624'' = 5231334624505624"
  by (simp add: decimal_value_def)

text \<open>
  The claim as stated covers every width. From 16 digits on the accumulator is rounded:
  a digest that starts with sixteen nines gives \<open>10 ^ 16\<close> at width 16, which is not below
  \<open>10 ^ 16\<close>; and the MD4 digest of the string \<open>a\<close> gives 52313346245056240 at width 17,
  where the digits of the digest are 5231334624505624, one digit is missing, and the
  formula gives 52313346245056241.
\<close>

theorem getHashNumber_rounds:
  "getHashNumber (\<lambda>s. ''99999999999999990000000000000000'') ''x'' 16 = Some (10 ^ 16) \<and>
   getHashNumber (\<lambda>s. ''bde52cb31de33e46245e05fbdbd6fb24'') ''a'' 17 = Some 52313346245056240 \<and>
   decimal_value (filter is_digit ''bde52cb31de33e46245e05fbdbd6fb24'') = 5231334624505624"
proof -
  have a: "getHashNumber (\<lambda>s. ''99999999999999990000000000000000'') ''x'' 16 = Some (10 ^ 16)"
    by code_simp
  have b: "getHashNumber (\<lambda>s. ''bde52cb31de33e46245e05fbdbd6fb24'') ''a'' 17 = Some 52313346245056240"
    by code_simp
  have c: "decimal_value (filter is_digit ''bde52cb31de33e46245e05fbdbd6fb24'') = 5231334624505624"
    by (simp only: digits_of_digest_a value_of_digest_a)
  from a b c show ?thesis by (intro conjI)
qed

section \<open>requestToId\<close>

lemma id_char_underscore: "id_char CHR ''_''"
  by (simp add: id_char_def)

lemma replace_runs_chars: "list_all id_char (replace_runs s)"
  by (induction s rule: replace_runs.induct) (simp_all add: id_char_underscore)

lemma replace_all_chars: "list_all id_char (replace_all s)"
  by (cases s) (simp_all add: replace_all_def replace_runs_chars id_char_underscore)

lemma replace_all_Nil: "(replace_all s = []) = (s = [])"
  by (cases s) (simp_all add: replace_all_def)

lemma length_replace_runs: "length (replace_runs s) \<le> length s"
proof (induction s rule: replace_runs.induct)
  case 1
  show ?case by simp
next
  case (2 c cs)
  have "length (dropWhile (\<lambda>c. \<not> id_char c) cs) \<le> length cs"
    by (rule length_dropWhile_le)
  with 2 show ?case by (cases "id_char c") auto
qed


text \<open>
  C5 (as amended). Every character of \<open>requestToId s\<close> is an ASCII letter, a digit, an
  underscore or a hyphen, so the result matches \<open>^[A-Za-z0-9_-]*$\<close>; it is empty exactly
  when nothing of \<open>s\<close> is left once its leading \<open>./\<close> and \<open>../\<close> segments are removed,
  and non-empty otherwise.
\<close>

theorem requestToId_chars:
  "list_all id_char (requestToId s) \<and> (requestToId s = [] \<longleftrightarrow> strip_relative s = [])"
  by (simp add: requestToId_def replace_all_chars replace_all_Nil)

theorem requestToId_chars_witness:
  "list_all id_char (requestToId ''./src/a.b-c/index.js'') \<and>
   requestToId ''./src/a.b-c/index.js'' = ''src_a_b-c_index_js'' \<and>
   requestToId ''--a...b'' = ''_-a_b'' \<and>
   (requestToId ''../'' = [] \<longleftrightarrow> strip_relative ''../'' = [])"
proof -
  have "requestToId ''./src/a.b-c/index.js'' = ''src_a_b-c_index_js''"
    by (simp add: requestToId_def strip_relative.simps replace_all_def id_char_def)
  moreover have "requestToId ''--a...b'' = ''_-a_b''"
    by (simp add: requestToId_def strip_relative.simps replace_all_def id_char_def)
  ultimately show ?thesis
    using requestToId_chars [of "''./src/a.b-c/index.js''"] requestToId_chars [of "''../''"]
    by blast
qed

text \<open>
  The claim as stated asks for a non-empty result (\<open>+\<close> in the pattern). The empty
  request, and a request made of relative segments only, give the empty string.
\<close>

theorem requestToId_empty:
  "requestToId [] = [] \<and> requestToId ''./'' = [] \<and> requestToId ''../../'' = []"
  by (simp add: requestToId_def strip_relative.simps replace_all_def)

section \<open>shortenLongString\<close>

lemma shortenLongString_short: "length str < 100 \<Longrightarrow> shortenLongString md4 str d = str"
  by (simp add: shortenLongString_def)

lemma shortenLongString_long:
  "100 \<le> length str \<Longrightarrow> length d \<le> 94 \<Longrightarrow>
     shortenLongString md4 str d = take (94 - length d) str @ d @ take 6 (md4 str)"
  by (simp add: shortenLongString_def slice0_def getHash_def nat_diff_distrib)

lemma long_delimiter:
  "length (shortenLongString md4 (replicate 100 CHR ''a'') (replicate 95 CHR ''~'')) > 100"
  by (simp add: shortenLongString_def slice0_def)

lemma card_fixed_length: "card {t :: string. length t = n} = 256 ^ n"
  using card_lists_length_eq [of "UNIV :: char set" n] by (simp add: card_UNIV_char)

lemma card_bounded_length: "card {t :: string. length t \<le> 6} < 256 ^ 56"
proof -
  have "card {t :: string. length t \<le> 6} = (\<Sum>i\<le>6. 256 ^ i)"
    using card_lists_length_le [of "UNIV :: char set" 6] by (simp add: card_UNIV_char)
  also have "{..6::nat} = {0, 1, 2, 3, 4, 5, 6}" by auto
  also have "(\<Sum>i\<in>{0, 1, 2, 3, 4, 5, 6::nat}. 256 ^ i) < (256 ^ 56 :: nat)" by simp
  finally show ?thesis .
qed

lemma hash_prefix_collision:
  "\<exists>s t. s \<noteq> t \<and> length s = 150 \<and> length t = 150 \<and> take 94 s = take 94 t \<and>
         shortenLongString md4 s ''~'' = shortenLongString md4 t ''~''"
proof -
  define pre where "pre = replicate 94 CHR ''a''"
  define A where "A = (\<lambda>t. pre @ t) ` {t :: string. length t = 56}"
  define f where "f = (\<lambda>s. take 6 (md4 s))"
  have fin: "finite {t :: string. length t \<le> 6}"
    using finite_lists_length_le [of "UNIV :: char set" 6] by simp
  have cardA: "card A = 256 ^ 56"
    unfolding A_def by (subst card_image) (auto simp: inj_on_def card_fixed_length)
  have sub: "f ` A \<subseteq> {t. length t \<le> 6}" by (auto simp: f_def)
  have "card (f ` A) \<le> card {t :: string. length t \<le> 6}"
    by (rule card_mono [OF fin sub])
  then have "card (f ` A) < card A"
    using card_bounded_length cardA by simp
  then have "\<not> inj_on f A" using card_image by fastforce
  then obtain s t where st: "s \<in> A" "t \<in> A" "s \<noteq> t" "f s = f t"
    by (auto simp: inj_on_def)
  have len: "length s = 150" "length t = 150" and pre: "take 94 s = pre" "take 94 t = pre"
    using st(1,2) by (auto simp: A_def pre_def)
  have "shortenLongString md4 s ''~'' = take 93 s @ ''~'' @ f s"
    using len by (simp add: shortenLongString_def slice0_def getHash_def f_def)
  moreover have "shortenLongString md4 t ''~'' = take 93 t @ ''~'' @ f t"
    using len by (simp add: shortenLongString_def slice0_def getHash_def f_def)
  moreover have "take 93 s = take 93 (take 94 s)" "take 93 t = take 93 (take 94 t)"
    by simp_all
  then have "take 93 s = take 93 t"
    using pre by simp
  ultimately have eq: "shortenLongString md4 s ''~'' = shortenLongString md4 t ''~''"
    using st(4) by simp
  show ?thesis
    using st(3) len pre eq by (intro exI [of _ s] exI [of _ t]) simp
qed

text \<open>
  C7 (as amended). Below 100 characters the input is returned unchanged. For an input of
  at least 100 characters and a delimiter \<open>d\<close> of at most 94 characters the result is the
  first \<open>94 - |d|\<close> characters, then \<open>d\<close>, then the first 6 characters of the hexadecimal
  digest of the whole input: 100 characters in all, ending in \<open>d\<close> and 6 hexadecimal
  characters. Two such inputs get the same result exactly when they agree on the kept
  prefix and on the 6-character hash; inputs that differ get different suffixes when
  their hashes differ in the first 6 characters, and only then.
\<close>

theorem shortenLongString_shape:
  assumes md4: "hex_digest md4" and d: "length d \<le> 94"
  shows "(length s < 100 \<longrightarrow> shortenLongString md4 s d = s) \<and>
    (100 \<le> length s \<longrightarrow>
       shortenLongString md4 s d = take (94 - length d) s @ d @ take 6 (md4 s) \<and>
       length (shortenLongString md4 s d) = 100 \<and>
       length (take 6 (md4 s)) = 6 \<and> list_all is_hex_char (take 6 (md4 s)) \<and>
       (100 \<le> length t \<longrightarrow>
          (shortenLongString md4 s d = shortenLongString md4 t d) =
          (take (94 - length d) s = take (94 - length d) t \<and> take 6 (md4 s) = take 6 (md4 t))))"
proof -
  have l: "\<And>x. length (md4 x) = 32" and h: "\<And>x. list_all is_hex_char (md4 x)"
    using md4 by (simp_all add: hex_digest_def)
  have h6: "list_all is_hex_char (take 6 (md4 s))"
    using h [of s] by (auto simp: list_all_iff dest: in_set_takeD)
  show ?thesis
  proof (intro conjI impI)
    assume "length s < 100"
    then show "shortenLongString md4 s d = s" by (rule shortenLongString_short)
  next
    assume s: "100 \<le> length s"
    show "shortenLongString md4 s d = take (94 - length d) s @ d @ take 6 (md4 s)"
      by (rule shortenLongString_long [OF s d])
    show "length (shortenLongString md4 s d) = 100"
      using s d by (simp add: shortenLongString_long l)
    show "length (take 6 (md4 s)) = 6" by (simp add: l)
    show "list_all is_hex_char (take 6 (md4 s))" by (rule h6)
    assume t: "100 \<le> length t"
    have "length (take (94 - length d) s) = length (take (94 - length d) t)"
      using s t by simp
    then show "(shortenLongString md4 s d = shortenLongString md4 t d) =
          (take (94 - length d) s = take (94 - length d) t \<and> take 6 (md4 s) = take 6 (md4 t))"
      by (simp add: shortenLongString_long [OF s d] shortenLongString_long [OF t d])
  qed
qed


theorem shortenLongString_shape_witness:
  "hex_digest (\<lambda>s. ''0123456789abcdef0123456789abcdef'') \<and> length ''~'' \<le> 94 \<and>
   100 \<le> length (replicate 150 CHR ''a'') \<and>
   shortenLongString (\<lambda>s. ''0123456789abcdef0123456789abcdef'') (replicate 150 CHR ''a'') ''~'' =
     replicate 93 CHR ''a'' @ ''~'' @ ''012345'' \<and>
   length (shortenLongString (\<lambda>s. ''0123456789abcdef0123456789abcdef'') (replicate 150 CHR ''a'') ''~'') = 100 \<and>
   shortenLongString (\<lambda>s. ''0123456789abcdef0123456789abcdef'') ''abc'' ''~'' = ''abc''"
proof -
  have h: "hex_digest (\<lambda>s. ''0123456789abcdef0123456789abcdef'')"
    by (simp add: hex_digest_def is_hex_char_def)
  have d: "length ''~'' \<le> 94" by simp
  have s: "100 \<le> length (replicate 150 CHR ''a'')" by simp
  note t = shortenLongString_shape [OF h d, of "replicate 150 CHR ''a''" "replicate 150 CHR ''a''"]
  note u = shortenLongString_shape [OF h d, of "''abc''" "''abc''"]
  have "shortenLongString (\<lambda>s. ''0123456789abcdef0123456789abcdef'') (replicate 150 CHR ''a'') ''~'' =
     replicate 93 CHR ''a'' @ ''~'' @ ''012345''"
    using t s by simp
  moreover have "length (shortenLongString (\<lambda>s. ''0123456789abcdef0123456789abcdef'') (replicate 150 CHR ''a'') ''~'') = 100"
    using t s by blast
  moreover have "shortenLongString (\<lambda>s. ''0123456789abcdef0123456789abcdef'') ''abc'' ''~'' = ''abc''"
    using u by simp
  ultimately show ?thesis using h d s by blast
qed

text \<open>
  The claim as stated fails in two places. With a delimiter of 95 characters the end
  index of \<open>slice\<close> is negative and the result is longer than 100 characters, whatever
  the digest. And no digest keeps apart all inputs that share a prefix: whatever the
  digest, two different 150-character inputs with the same first 94 characters get the
  same result.
\<close>

theorem shortenLongString_counterexample:
  "(\<forall>md4. length (shortenLongString md4 (replicate 100 CHR ''a'') (replicate 95 CHR ''~'')) > 100) \<and>
   (\<forall>md4. \<exists>s t. s \<noteq> t \<and> length s = 150 \<and> length t = 150 \<and> take 94 s = take 94 t \<and>
         shortenLongString md4 s ''~'' = shortenLongString md4 t ''~'')"
  using long_delimiter hash_prefix_collision by blast

section \<open>avoidNumber\<close>
























section \<open>parseOptions\<close>

lemma is_string_iff: "is_string n = (\<exists>s. n = Some (Name_string s))"
  by (cases n rule: is_string.cases) simp_all

lemma truthy_not_string: "\<not> is_string n \<Longrightarrow> truthy n = (n \<noteq> None)"
  by (cases n rule: truthy.cases) simp_all

text \<open>
  C9. \<open>parseOptions\<close> raises, with the message
  \<open>System.js library name must be a simple string or unset\<close>, exactly when the name of
  the library option is present and is not a string. When the name is unset or a string
  it returns the parsed options with that name. In every case the state is as before.
\<close>

theorem parseOptions_error:
  "(fst (parseOptions st lib) = Inl (Error ''System.js library name must be a simple string or unset''))
     = (\<exists>n. library_name lib = Some n \<and> \<not> is_string (Some n)) \<and>
   isl (fst (parseOptions st lib)) = (\<exists>n. library_name lib = Some n \<and> \<not> is_string (Some n)) \<and>
   (library_name lib = None \<longrightarrow> fst (parseOptions st lib) = Inr \<lparr>parsed_name = None\<rparr>) \<and>
   (\<forall>s. library_name lib = Some (Name_string s) \<longrightarrow>
        fst (parseOptions st lib) = Inr \<lparr>parsed_name = Some s\<rparr>) \<and>
   snd (parseOptions st lib) = st"
proof (cases "is_string (library_name lib)")
  case True
  then obtain s where "library_name lib = Some (Name_string s)" by (auto simp: is_string_iff)
  then show ?thesis by (simp add: parseOptions_def)
next
  case False
  show ?thesis
  proof (cases "library_name lib")
    case None
    then show ?thesis by (simp add: parseOptions_def)
  next
    case (Some n)
    with False have "truthy (library_name lib)" by (simp add: truthy_not_string)
    with False Some show ?thesis by (auto simp: parseOptions_def is_string_iff)
  qed
qed

theorem parseOptions_error_witness:
  "fst (parseOptions (0::nat) \<lparr>library_name = Some (Name_array [''a'', ''b'']), library_type = ''system''\<rparr>)
     = Inl (Error ''System.js library name must be a simple string or unset'') \<and>
   fst (parseOptions (0::nat) \<lparr>library_name = Some (Name_string ''app''), library_type = ''system''\<rparr>)
     = Inr \<lparr>parsed_name = Some ''app''\<rparr> \<and>
   fst (parseOptions (0::nat) \<lparr>library_name = None, library_type = ''system''\<rparr>)
     = Inr \<lparr>parsed_name = None\<rparr> \<and>
   snd (parseOptions (0::nat) \<lparr>library_name = Some (Name_array [''a'', ''b'']), library_type = ''system''\<rparr>) = 0"
  using parseOptions_error [of "0::nat" "\<lparr>library_name = Some (Name_array [''a'', ''b'']), library_type = ''system''\<rparr>"]
    parseOptions_error [of "0::nat" "\<lparr>library_name = Some (Name_string ''app''), library_type = ''system''\<rparr>"]
    parseOptions_error [of "0::nat" "\<lparr>library_name = None, library_type = ''system''\<rparr>"]
  by simp

section \<open>Chunk names\<close>

lemma sort_hints_props: "sorted (sort_hints hs) \<and> mset (sort_hints hs) = mset hs"
  by (simp add: sort_hints_def)

text \<open>
  C10. \<open>getShortChunkName\<close> and \<open>getLongChunkName\<close> leave the chunk with its
  \<open>idNameHints\<close> sorted, holding the same hints as before; no other field of the chunk
  and no other chunk is changed.
\<close>

theorem chunk_name_sorts_hints:
  "sorted (idNameHints (snd (getShortChunkName h store c chunkGraph context delimiter) c)) \<and>
   mset (idNameHints (snd (getShortChunkName h store c chunkGraph context delimiter) c))
     = mset (idNameHints (store c)) \<and>
   snd (getShortChunkName h store c chunkGraph context delimiter) c
     = (store c)\<lparr>idNameHints := idNameHints (snd (getShortChunkName h store c chunkGraph context delimiter) c)\<rparr> \<and>
   (\<forall>d. d \<noteq> c \<longrightarrow> snd (getShortChunkName h store c chunkGraph context delimiter) d = store d) \<and>
   sorted (idNameHints (snd (getLongChunkName h store c chunkGraph context delimiter) c)) \<and>
   mset (idNameHints (snd (getLongChunkName h store c chunkGraph context delimiter) c))
     = mset (idNameHints (store c)) \<and>
   snd (getLongChunkName h store c chunkGraph context delimiter) c
     = (store c)\<lparr>idNameHints := idNameHints (snd (getLongChunkName h store c chunkGraph context delimiter) c)\<rparr> \<and>
   (\<forall>d. d \<noteq> c \<longrightarrow> snd (getLongChunkName h store c chunkGraph context delimiter) d = store d)"
  by (simp add: getShortChunkName_def getLongChunkName_def Let_def sort_hints_props)

text \<open>
  A chunk with the hints \<open>b\<close>, \<open>a\<close> and one root module \<open>./src/a.js\<close>: the short name is
  \<open>a~b~src_a_js\<close> and the chunk is left with the hints \<open>a\<close>, \<open>b\<close>.
\<close>

theorem chunk_name_sorts_hints_witness:
  "fst (getShortChunkName sample_host sample_chunks 0 (\<lambda>c. [7]) ''/app'' ''~'') = Some ''a~b~src_a_js'' \<and>
   idNameHints (snd (getShortChunkName sample_host sample_chunks 0 (\<lambda>c. [7]) ''/app'' ''~'') 0)
     = [''a'', ''b''] \<and>
   sorted (idNameHints (snd (getShortChunkName sample_host sample_chunks 0 (\<lambda>c. [7]) ''/app'' ''~'') 0)) \<and>
   (1 \<noteq> (0::nat) \<and> snd (getShortChunkName sample_host sample_chunks 0 (\<lambda>c. [7]) ''/app'' ''~'') 1
     = sample_chunks 1) \<and>
   sorted (idNameHints (snd (getLongChunkName sample_host sample_chunks 0 (\<lambda>c. [7]) ''/app'' ''~'') 0))"
proof -
  note t = chunk_name_sorts_hints [of sample_host sample_chunks 0 "\<lambda>c. [7]" "''/app''" "''~''"]
  have n: "fst (getShortChunkName sample_host sample_chunks 0 (\<lambda>c. [7]) ''/app'' ''~'') = Some ''a~b~src_a_js''"
    by (simp add: getShortChunkName_def sample_host_def sample_chunks_def sort_hints_def
        getShortModuleName_def avoidNumber_def number_string_def is_digit_def is_space_def
        those_names_def requestToId_def strip_relative.simps replace_all_def id_char_def
        shortenLongString_def)
  have hs: "idNameHints (snd (getShortChunkName sample_host sample_chunks 0 (\<lambda>c. [7]) ''/app'' ''~'') 0)
     = [''a'', ''b'']"
    by (simp add: getShortChunkName_def sample_chunks_def sort_hints_def)
  from t n hs show ?thesis by simp
qed

section \<open>Sorting and probing\<close>

lemma mset_insert_item: "mset (insert_item cmp x ys) = add_mset x (mset ys)"
  by (induction ys) simp_all

lemma mset_sort_items: "mset (sort_items cmp xs) = mset xs"
  by (induction xs) (simp_all add: sort_items_def mset_insert_item)

lemma set_insert_item: "set (insert_item cmp x ys) = insert x (set ys)"
  by (induction ys) auto

lemma sorted_insert_item:
  assumes "total_order cmp" "sorted_wrt (\<lambda>x y. cmp x y \<le> 0) ys"
  shows "sorted_wrt (\<lambda>x y. cmp x y \<le> 0) (insert_item cmp x ys)"
  using assms(2)
proof (induction ys)
  case Nil
  then show ?case by simp
next
  case (Cons y ys)
  have tot: "\<And>a b. cmp a b \<le> 0 \<or> cmp b a \<le> 0"
    and trans: "\<And>a b c. cmp a b \<le> 0 \<Longrightarrow> cmp b c \<le> 0 \<Longrightarrow> cmp a c \<le> 0"
    using assms(1) unfolding total_order_def by blast+
  show ?case
  proof (cases "cmp x y \<le> 0")
    case True
    then have "\<forall>z\<in>set ys. cmp x z \<le> 0" using Cons.prems trans by auto
    with True Cons.prems show ?thesis by simp
  next
    case False
    then have "cmp y x \<le> 0" using tot by blast
    with False Cons show ?thesis by (auto simp: set_insert_item)
  qed
qed

lemma sorted_sort_items:
  "total_order cmp \<Longrightarrow> sorted_wrt (\<lambda>x y. cmp x y \<le> 0) (sort_items cmp xs)"
  by (induction xs) (simp_all add: sort_items_def sorted_insert_item)

lemma sorted_unique:
  assumes anti: "\<And>a b. le a b \<Longrightarrow> le b a \<Longrightarrow> a = b"
  shows "sorted_wrt le xs \<Longrightarrow> sorted_wrt le ys \<Longrightarrow> mset xs = mset ys \<Longrightarrow> xs = ys"
proof (induction xs arbitrary: ys)
  case Nil
  then show ?case by simp
next
  case (Cons x xs)
  then obtain y ys' where ys: "ys = y # ys'" by (cases ys) auto
  have "x \<in> set ys" using Cons.prems(3) by (metis list.set_intros(1) mset_eq_setD)
  moreover have "y \<in> set (x # xs)" using Cons.prems(3) ys by (metis list.set_intros(1) mset_eq_setD)
  ultimately have xy: "x = y" using Cons.prems(1,2) ys anti by auto
  then have "mset xs = mset ys'" using Cons.prems(3) ys by simp
  moreover have "sorted_wrt le xs" "sorted_wrt le ys'" using Cons.prems(1,2) ys by simp_all
  ultimately have "xs = ys'" by (intro Cons.IH)
  with xy ys show ?case by simp
qed

lemma sort_items_permutation:
  assumes "total_order cmp" "mset xs = mset ys"
  shows "sort_items cmp xs = sort_items cmp ys"
proof (rule sorted_unique [where le = "\<lambda>x y. cmp x y \<le> 0"])
  show "\<And>a b. cmp a b \<le> 0 \<Longrightarrow> cmp b a \<le> 0 \<Longrightarrow> a = b"
    using assms(1) unfolding total_order_def by blast
qed (simp_all add: sorted_sort_items assms mset_sort_items)

lemma probe_fresh:
  assumes "probe md4 usedIds ident len i = Some n"
  shows "show_int n |\<notin>| usedIds"
  by (rule probe.raw_induct [where P = "\<lambda>md4 usedIds ident len i n. show_int n |\<notin>| usedIds", OF _ assms])
    (auto split: if_splits option.splits)

lemma assign_ids_calls:
  "assign_ids md4 getName len record_call items (used, calls) = Some (used', calls') \<Longrightarrow>
     \<exists>new. calls' = calls @ new \<and> map fst new = items \<and> distinct (map (show_int \<circ> snd) new) \<and>
       (\<forall>n \<in> snd ` set new. show_int n |\<notin>| used) \<and>
       used' = used |\<union>| fset_of_list (map (show_int \<circ> snd) new)"
proof (induction items arbitrary: used calls)
  case Nil
  then show ?case by simp
next
  case (Cons item items)
  from Cons.prems obtain n where n: "probe md4 used (getName item) len 0 = Some n"
    and rest: "assign_ids md4 getName len record_call items
                 (finsert (show_int n) used, record_call item n calls) = Some (used', calls')"
    by (auto split: option.splits)
  from Cons.IH [OF rest] obtain new where new:
    "calls' = record_call item n calls @ new" "map fst new = items"
    "distinct (map (show_int \<circ> snd) new)"
    "\<forall>k \<in> snd ` set new. show_int k |\<notin>| finsert (show_int n) used"
    "used' = finsert (show_int n) used |\<union>| fset_of_list (map (show_int \<circ> snd) new)"
    by blast
  have fresh: "show_int n |\<notin>| used" by (rule probe_fresh [OF n])
  show ?case
  proof (intro exI [of _ "(item, n) # new"] conjI)
    show "calls' = calls @ (item, n) # new" using new(1) by (simp add: record_call_def)
    show "map fst ((item, n) # new) = item # items" using new(2) by simp
    show "distinct (map (show_int \<circ> snd) ((item, n) # new))"
      using new(3,4) by (auto simp: image_iff)
    show "\<forall>k \<in> snd ` set ((item, n) # new). show_int k |\<notin>| used"
      using new(4) fresh by auto
    show "used' = used |\<union>| fset_of_list (map (show_int \<circ> snd) ((item, n) # new))"
      using new(5) by auto
  qed
qed

lemma deterministic_ids_unique:
  assumes "assignDeterministicIds md4 items getName comparator maxLength usedIds record_call []
             = Some (items', usedIds', calls)"
  shows "map fst calls = sort_items comparator items \<and> distinct (map snd calls) \<and>
         (\<forall>n \<in> snd ` set calls. show_int n |\<notin>| usedIds)"
proof -
  from assms obtain len where
    "assign_ids md4 getName len record_call (sort_items comparator items) (usedIds, [])
       = Some (usedIds', calls)"
    by (auto simp: assignDeterministicIds_def Let_def split: option.splits)
  from assign_ids_calls [OF this] have
    "map fst calls = sort_items comparator items" "distinct (map (show_int \<circ> snd) calls)"
    "\<forall>n \<in> snd ` set calls. show_int n |\<notin>| usedIds"
    by auto
  moreover from this(2) have "distinct (map snd calls)"
    by (metis distinct_map list.map_comp)
  ultimately show ?thesis by blast
qed

section \<open>Ascending ids: what a pass changes\<close>

lemma next_unused_ge: "k \<le> next_unused used k"
proof (induction used k rule: next_unused.induct)
  case (1 used k)
  show ?case
  proof (cases "show_nat k |\<in>| used")
    case True
    with 1 have "k + 1 \<le> next_unused used (k + 1)" by simp
    with True show ?thesis by (subst next_unused.simps) simp
  next
    case False
    then show ?thesis by (subst next_unused.simps) simp
  qed
qed

lemma next_unused_fresh: "show_nat (next_unused used k) |\<notin>| used"
proof (induction used k rule: next_unused.induct)
  case (1 used k)
  show ?case
  proof (cases "show_nat k |\<in>| used")
    case True
    with 1 show ?thesis by (subst next_unused.simps) simp
  next
    case False
    then show ?thesis by (subst next_unused.simps) simp
  qed
qed

lemma next_unused_empty: "next_unused {||} k = k"
  by (subst next_unused.simps) simp

lemma assignId_counting_eq: "assignId_counting = assignId_skipping {||}"
  by (rule ext, rule ext)
    (simp add: assignId_counting_def assignId_skipping_def next_unused_empty split: prod.splits)

text \<open>One call of the closure.\<close>

lemma assignId_step:
  assumes "assignId_skipping used m (k, g) = (k1, g1)"
  shows "k \<le> k1"
    and "g x \<noteq> None \<Longrightarrow> g1 x = g x"
    and "x \<noteq> m \<Longrightarrow> g1 x = g x"
    and "g1 m \<noteq> None"
    and "g m = None \<Longrightarrow> \<exists>n. g1 m = Some (Num n) \<and> k \<le> n \<and> k1 = n + 1 \<and> show_nat n |\<notin>| used"
  using assms next_unused_ge [of k used] next_unused_fresh [of used k]
  by (auto simp: assignId_skipping_def Let_def split: if_splits)

lemma fold_assignId_mono:
  "fold (assignId_skipping used) ms (k, g) = (k', g') \<Longrightarrow> k \<le> k'"
proof (induction ms arbitrary: k g)
  case Nil
  then show ?case by simp
next
  case (Cons m ms)
  obtain k1 g1 where s: "assignId_skipping used m (k, g) = (k1, g1)" by fastforce
  with Cons.prems have "fold (assignId_skipping used) ms (k1, g1) = (k', g')" by simp
  then have "k1 \<le> k'" by (rule Cons.IH)
  with assignId_step(1) [OF s] show ?case by simp
qed

lemma fold_assignId_keeps:
  "fold (assignId_skipping used) ms (k, g) = (k', g') \<Longrightarrow> g x \<noteq> None \<Longrightarrow> g' x = g x"
proof (induction ms arbitrary: k g)
  case Nil
  then show ?case by simp
next
  case (Cons m ms)
  obtain k1 g1 where s: "assignId_skipping used m (k, g) = (k1, g1)" by fastforce
  with Cons.prems have r: "fold (assignId_skipping used) ms (k1, g1) = (k', g')" by simp
  have "g1 x = g x" using assignId_step(2) [OF s] Cons.prems(2) by simp
  with Cons.IH [OF r] Cons.prems(2) show ?case by simp
qed

lemma fold_assignId_outside:
  "fold (assignId_skipping used) ms (k, g) = (k', g') \<Longrightarrow> x \<notin> set ms \<Longrightarrow> g' x = g x"
proof (induction ms arbitrary: k g)
  case Nil
  then show ?case by simp
next
  case (Cons m ms)
  obtain k1 g1 where s: "assignId_skipping used m (k, g) = (k1, g1)" by fastforce
  with Cons.prems have r: "fold (assignId_skipping used) ms (k1, g1) = (k', g')" by simp
  have "g1 x = g x" using assignId_step(3) [OF s] Cons.prems(2) by simp
  with Cons.IH [OF r] Cons.prems(2) show ?case by simp
qed

lemma fold_assignId_assigns:
  "fold (assignId_skipping used) ms (k, g) = (k', g') \<Longrightarrow> x \<in> set ms \<Longrightarrow> g' x \<noteq> None"
proof (induction ms arbitrary: k g)
  case Nil
  then show ?case by simp
next
  case (Cons m ms)
  obtain k1 g1 where s: "assignId_skipping used m (k, g) = (k1, g1)" by fastforce
  with Cons.prems have r: "fold (assignId_skipping used) ms (k1, g1) = (k', g')" by simp
  show ?case
  proof (cases "x \<in> set ms")
    case True
    then show ?thesis by (rule Cons.IH [OF r])
  next
    case False
    with Cons.prems(2) have "x = m" by simp
    then have "g1 x \<noteq> None" using assignId_step(4) [OF s] by simp
    then show ?thesis using fold_assignId_keeps [OF r] by simp
  qed
qed

lemma fold_assignId_new:
  "fold (assignId_skipping used) ms (k, g) = (k', g') \<Longrightarrow> g x = None \<Longrightarrow> g' x \<noteq> None \<Longrightarrow>
     \<exists>n. g' x = Some (Num n) \<and> k \<le> n \<and> n < k' \<and> show_nat n |\<notin>| used"
proof (induction ms arbitrary: k g)
  case Nil
  then show ?case by simp
next
  case (Cons m ms)
  obtain k1 g1 where s: "assignId_skipping used m (k, g) = (k1, g1)" by fastforce
  with Cons.prems have r: "fold (assignId_skipping used) ms (k1, g1) = (k', g')" by simp
  have k1: "k \<le> k1" by (rule assignId_step(1) [OF s])
  have k': "k1 \<le> k'" by (rule fold_assignId_mono [OF r])
  show ?case
  proof (cases "g1 x = None")
    case True
    from Cons.IH [OF r True Cons.prems(3)] k1 show ?thesis by auto
  next
    case False
    have xm: "x = m"
    proof (rule ccontr)
      assume "x \<noteq> m"
      then have "g1 x = g x" by (rule assignId_step(3) [OF s])
      with False Cons.prems(2) show False by simp
    qed
    obtain n where n: "g1 m = Some (Num n)" "k \<le> n" "k1 = n + 1" "show_nat n |\<notin>| used"
      using assignId_step(5) [OF s] Cons.prems(2) xm by auto
    have "g' m = g1 m" using fold_assignId_keeps [OF r, of m] n(1) by simp
    with n k' xm show ?thesis by auto
  qed
qed

lemma fold_assignId_distinct:
  "fold (assignId_skipping used) ms (k, g) = (k', g') \<Longrightarrow> g x = None \<Longrightarrow> g y = None \<Longrightarrow>
     g' x \<noteq> None \<Longrightarrow> x \<noteq> y \<Longrightarrow> g' x \<noteq> g' y"
proof (induction ms arbitrary: k g)
  case Nil
  then show ?case by simp
next
  case (Cons m ms)
  obtain k1 g1 where s: "assignId_skipping used m (k, g) = (k1, g1)" by fastforce
  with Cons.prems have r: "fold (assignId_skipping used) ms (k1, g1) = (k', g')" by simp
  have other: "g' z \<noteq> g' m" if z: "z \<noteq> m" "g z = None" "g' z \<noteq> None" and gm: "g m = None" for z
  proof -
    obtain n where n: "g1 m = Some (Num n)" "k1 = n + 1"
      using assignId_step(5) [OF s gm] by auto
    have m: "g' m = Some (Num n)" using fold_assignId_keeps [OF r, of m] n(1) by simp
    have "g1 z = None" using assignId_step(3) [OF s, of z] z by simp
    from fold_assignId_new [OF r this z(3)] obtain j where "g' z = Some (Num j)" "k1 \<le> j"
      by auto
    with m n(2) show ?thesis by auto
  qed
  show ?case
  proof (cases "x = m \<or> y = m")
    case True
    show ?thesis
    proof (cases "g' y = None")
      case True
      with Cons.prems(4) show ?thesis by auto
    next
      case False
      with True other [of x] other [of y] Cons.prems show ?thesis by metis
    qed
  next
    case False
    then have "g1 x = None" "g1 y = None"
      using assignId_step(3) [OF s] Cons.prems(2,3) by auto
    then show ?thesis using Cons.IH [OF r] Cons.prems(4,5) by blast
  qed
qed

lemma fold_assignId_noop:
  "\<forall>m \<in> set ms. g m \<noteq> None \<Longrightarrow> fold (assignId_skipping used) ms (k, g) = (k, g)"
  by (induction ms) (auto simp: assignId_skipping_def)

lemma module_ids_fold:
  "moduleId (assignAscendingModuleIds ms C)
     = snd (fold (assignId_skipping (getUsedModuleIds C)) ms (0, moduleId C))"
  by (simp add: assignAscendingModuleIds_def Let_def assignId_counting_eq)

lemma committed_module_reserved:
  assumes "y \<in> set (modules C)" "moduleId C y = Some i"
  shows "ident_string i |\<in>| getUsedModuleIds C"
proof -
  have "i \<in> set (List.map_filter (moduleId C) (modules C))"
    using assms by (force simp: map_filter_def)
  then show ?thesis by (simp add: getUsedModuleIds_def fset_of_list.rep_eq)
qed

lemma ascending_modules:
  fixes C :: "('m, 'c) compilation"
  defines "g \<equiv> moduleId C"
  shows "(\<forall>m. g m \<noteq> None \<longrightarrow> moduleId (assignAscendingModuleIds ms C) m = g m) \<and>
    (\<forall>m. m \<notin> set ms \<longrightarrow> moduleId (assignAscendingModuleIds ms C) m = g m) \<and>
    (\<forall>m\<in>set ms. g m = None \<longrightarrow>
       (\<exists>n. moduleId (assignAscendingModuleIds ms C) m = Some (Num n) \<and>
            show_nat n |\<notin>| getUsedModuleIds C)) \<and>
    (\<forall>x\<in>set ms. \<forall>y\<in>set ms. g x = None \<and> g y = None \<and> x \<noteq> y \<longrightarrow>
       moduleId (assignAscendingModuleIds ms C) x \<noteq> moduleId (assignAscendingModuleIds ms C) y) \<and>
    (\<forall>x\<in>set ms. \<forall>y\<in>set (modules C). g x = None \<and> g y \<noteq> None \<longrightarrow>
       moduleId (assignAscendingModuleIds ms C) x \<noteq> moduleId (assignAscendingModuleIds ms C) y) \<and>
    assignAscendingModuleIds ms (assignAscendingModuleIds ms C) = assignAscendingModuleIds ms C"
proof -
  define used where "used = getUsedModuleIds C"
  obtain k' g' where f: "fold (assignId_skipping used) ms (0, g) = (k', g')" by fastforce
  have g': "moduleId (assignAscendingModuleIds ms C) = g'"
    using f by (simp add: module_ids_fold used_def g_def)
  have keeps: "\<And>m. g m \<noteq> None \<Longrightarrow> g' m = g m" by (rule fold_assignId_keeps [OF f])
  have outside: "\<And>m. m \<notin> set ms \<Longrightarrow> g' m = g m" by (rule fold_assignId_outside [OF f])
  have assigns: "\<And>m. m \<in> set ms \<Longrightarrow> g' m \<noteq> None" by (rule fold_assignId_assigns [OF f])
  have new: "\<And>m. m \<in> set ms \<Longrightarrow> g m = None \<Longrightarrow> \<exists>n. g' m = Some (Num n) \<and> show_nat n |\<notin>| used"
    using fold_assignId_new [OF f] assigns by blast
  have dist: "\<And>x y. x \<in> set ms \<Longrightarrow> g x = None \<Longrightarrow> g y = None \<Longrightarrow> x \<noteq> y \<Longrightarrow> g' x \<noteq> g' y"
    using fold_assignId_distinct [OF f] assigns by blast
  have reserved: "g' x \<noteq> g' y"
    if x: "x \<in> set ms" and y: "y \<in> set (modules C)" and gx: "g x = None" and gy: "g y \<noteq> None" for x y
  proof -
    obtain n where n: "g' x = Some (Num n)" "show_nat n |\<notin>| used" using new x gx by blast
    obtain i where i: "g y = Some i" using gy by auto
    then have "ident_string i |\<in>| used"
      using committed_module_reserved [OF y] by (simp add: used_def g_def)
    with n(2) have "Num n \<noteq> i" by auto
    moreover have "g' y = Some i" using keeps [of y] i by simp
    ultimately show ?thesis using n(1) by simp
  qed
  have idem: "assignAscendingModuleIds ms (assignAscendingModuleIds ms C) = assignAscendingModuleIds ms C"
  proof -
    define C' where "C' = assignAscendingModuleIds ms C"
    have all: "\<forall>m\<in>set ms. moduleId C' m \<noteq> None" using assigns g' by (simp add: C'_def)
    have "moduleId (assignAscendingModuleIds ms C') = moduleId C'"
      unfolding module_ids_fold using fold_assignId_noop [OF all] by simp
    moreover have "assignAscendingModuleIds ms C' = C'\<lparr>moduleId := moduleId (assignAscendingModuleIds ms C')\<rparr>"
      by (simp add: assignAscendingModuleIds_def Let_def)
    ultimately show ?thesis by (simp add: C'_def)
  qed
  show ?thesis
    unfolding g' using keeps outside new dist reserved idem unfolding used_def by blast
qed

lemma assignChunk_counting_eq: "assignChunk_counting = assignChunk_skipping {||}"
  by (rule ext, rule ext)
    (simp add: assignChunk_counting_def assignChunk_skipping_def next_unused_empty split: prod.splits)

lemma chunk_store_fold:
  "chunkStore (assignAscendingChunkIds cs C)
     = snd (fold (assignChunk_skipping (getUsedChunkIds C)) cs (0, chunkStore C))"
  by (simp add: assignAscendingChunkIds_def Let_def assignChunk_counting_eq)

lemma committed_chunk_reserved:
  assumes "y \<in> set (chunks C)" "id' (chunkStore C y) = Some i"
  shows "ident_string i |\<in>| getUsedChunkIds C"
proof -
  have "i \<in> set (List.map_filter (\<lambda>c. id' (chunkStore C c)) (chunks C))"
    using assms by (force simp: map_filter_def)
  then show ?thesis by (simp add: getUsedChunkIds_def fset_of_list.rep_eq)
qed

text \<open>The ids of the chunks change as the module ids do under \<open>assignId\<close>.\<close>

lemma chunk_step_new:
  "id' (S c) = None \<Longrightarrow>
     assignChunk_skipping used c (k, S) =
       (next_unused used k + 1,
        S(c := (S c)\<lparr>id' := Some (Num (next_unused used k)), ids := Some [Num (next_unused used k)]\<rparr>))"
  by (simp add: assignChunk_skipping_def Let_def)

lemma chunk_step_old: "id' (S c) \<noteq> None \<Longrightarrow> assignChunk_skipping used c (k, S) = (k, S)"
  by (auto simp: assignChunk_skipping_def)

lemma chunk_step:
  assumes "assignChunk_skipping used c (k, S) = (k1, S1)"
  shows "assignId_skipping used c (k, \<lambda>x. id' (S x)) = (k1, \<lambda>x. id' (S1 x))"
    and "x \<noteq> c \<Longrightarrow> S1 x = S x"
    and "id' (S c) \<noteq> None \<Longrightarrow> S1 = S"
    and "id' (S c) = None \<Longrightarrow> \<exists>n. S1 c = (S c)\<lparr>id' := Some (Num n), ids := Some [Num n]\<rparr>"
proof -
  show "assignId_skipping used c (k, \<lambda>x. id' (S x)) = (k1, \<lambda>x. id' (S1 x))"
  proof (cases "id' (S c) = None")
    case True
    from assms chunk_step_new [of S c used k] True have
      "k1 = next_unused used k + 1"
      "S1 = S(c := (S c)\<lparr>id' := Some (Num (next_unused used k)), ids := Some [Num (next_unused used k)]\<rparr>)"
      by simp_all
    with True show ?thesis by (simp add: assignId_skipping_def Let_def fun_eq_iff)
  next
    case False
    from assms chunk_step_old [of S c used k] False have "k1 = k" "S1 = S" by simp_all
    with False show ?thesis by (auto simp: assignId_skipping_def)
  qed
  show "x \<noteq> c \<Longrightarrow> S1 x = S x"
    using assms chunk_step_new [of S c used k] chunk_step_old [of S c used k]
    by (cases "id' (S c) = None") auto
  show "id' (S c) \<noteq> None \<Longrightarrow> S1 = S"
    using assms chunk_step_old [of S c used k] by simp
  show "id' (S c) = None \<Longrightarrow> \<exists>n. S1 c = (S c)\<lparr>id' := Some (Num n), ids := Some [Num n]\<rparr>"
    using assms chunk_step_new [of S c used k] by auto
qed

lemma fold_chunk_ids:
  "fold (assignChunk_skipping used) cs (k, S) = (k', S') \<Longrightarrow>
     fold (assignId_skipping used) cs (k, \<lambda>x. id' (S x)) = (k', \<lambda>x. id' (S' x))"
proof (induction cs arbitrary: k S)
  case Nil
  then show ?case by simp
next
  case (Cons c cs)
  obtain k1 S1 where s: "assignChunk_skipping used c (k, S) = (k1, S1)" by fastforce
  with Cons.prems have r: "fold (assignChunk_skipping used) cs (k1, S1) = (k', S')" by simp
  show ?case using Cons.IH [OF r] chunk_step(1) [OF s] by simp
qed

lemma fold_chunk_shape:
  "fold (assignChunk_skipping used) cs (k, S) = (k', S') \<Longrightarrow>
     (id' (S x) \<noteq> None \<longrightarrow> S' x = S x) \<and>
     (id' (S x) = None \<longrightarrow>
        S' x = S x \<or> (\<exists>n. S' x = (S x)\<lparr>id' := Some (Num n), ids := Some [Num n]\<rparr>))"
proof (induction cs arbitrary: k S)
  case Nil
  then show ?case by simp
next
  case (Cons c cs)
  obtain k1 S1 where s: "assignChunk_skipping used c (k, S) = (k1, S1)" by fastforce
  with Cons.prems have r: "fold (assignChunk_skipping used) cs (k1, S1) = (k', S')" by simp
  note ih = Cons.IH [OF r]
  show ?case
  proof (cases "x = c \<and> id' (S c) = None")
    case True
    then obtain n where n: "S1 c = (S c)\<lparr>id' := Some (Num n), ids := Some [Num n]\<rparr>"
      using chunk_step(4) [OF s] by blast
    then have "id' (S1 x) \<noteq> None" using True by simp
    then have "S' x = S1 x" using ih by blast
    with n True show ?thesis by auto
  next
    case False
    have "S1 x = S x"
    proof (cases "x = c")
      case True
      with False have "id' (S c) \<noteq> None" by simp
      then show ?thesis using chunk_step(3) [OF s] by simp
    next
      case False
      then show ?thesis by (rule chunk_step(2) [OF s])
    qed
    then show ?thesis using ih by simp
  qed
qed

lemma ascending_chunks:
  fixes C :: "('m, 'c) compilation"
  defines "S \<equiv> chunkStore C"
  shows "(\<forall>c. id' (S c) \<noteq> None \<longrightarrow> chunkStore (assignAscendingChunkIds cs C) c = S c) \<and>
    (\<forall>c. c \<notin> set cs \<longrightarrow> chunkStore (assignAscendingChunkIds cs C) c = S c) \<and>
    (\<forall>c\<in>set cs. id' (S c) = None \<longrightarrow>
       (\<exists>n. chunkStore (assignAscendingChunkIds cs C) c
               = (S c)\<lparr>id' := Some (Num n), ids := Some [Num n]\<rparr> \<and>
            show_nat n |\<notin>| getUsedChunkIds C)) \<and>
    (\<forall>x\<in>set cs. \<forall>y\<in>set cs. id' (S x) = None \<and> id' (S y) = None \<and> x \<noteq> y \<longrightarrow>
       id' (chunkStore (assignAscendingChunkIds cs C) x)
         \<noteq> id' (chunkStore (assignAscendingChunkIds cs C) y)) \<and>
    (\<forall>x\<in>set cs. \<forall>y\<in>set (chunks C). id' (S x) = None \<and> id' (S y) \<noteq> None \<longrightarrow>
       id' (chunkStore (assignAscendingChunkIds cs C) x)
         \<noteq> id' (chunkStore (assignAscendingChunkIds cs C) y)) \<and>
    assignAscendingChunkIds cs (assignAscendingChunkIds cs C) = assignAscendingChunkIds cs C"
proof -
  define used where "used = getUsedChunkIds C"
  define g where "g = (\<lambda>x. id' (S x))"
  obtain k' S' where fc: "fold (assignChunk_skipping used) cs (0, S) = (k', S')" by fastforce
  define g' where "g' = (\<lambda>x. id' (S' x))"
  have f: "fold (assignId_skipping used) cs (0, g) = (k', g')"
    using fold_chunk_ids [OF fc] by (simp add: g_def g'_def)
  have S': "chunkStore (assignAscendingChunkIds cs C) = S'"
    using fc by (simp add: chunk_store_fold used_def S_def)
  have shape: "\<And>x. (id' (S x) \<noteq> None \<longrightarrow> S' x = S x) \<and>
     (id' (S x) = None \<longrightarrow>
        S' x = S x \<or> (\<exists>n. S' x = (S x)\<lparr>id' := Some (Num n), ids := Some [Num n]\<rparr>))"
    by (rule fold_chunk_shape [OF fc])
  have keeps: "\<And>c. id' (S c) \<noteq> None \<Longrightarrow> S' c = S c" using shape by blast
  have outside: "S' c = S c" if c: "c \<notin> set cs" for c
  proof -
    have "g' c = g c" by (rule fold_assignId_outside [OF f c])
    then have "id' (S' c) = id' (S c)" by (simp add: g_def g'_def)
    then show ?thesis using shape [of c] by (cases "id' (S c)") auto
  qed
  have assigns: "\<And>c. c \<in> set cs \<Longrightarrow> g' c \<noteq> None" by (rule fold_assignId_assigns [OF f])
  have new: "\<exists>n. S' c = (S c)\<lparr>id' := Some (Num n), ids := Some [Num n]\<rparr> \<and> show_nat n |\<notin>| used"
    if c: "c \<in> set cs" and n: "id' (S c) = None" for c
  proof -
    have "g c = None" using n by (simp add: g_def)
    from fold_assignId_new [OF f this assigns [OF c]]
    obtain j where j: "id' (S' c) = Some (Num j)" "show_nat j |\<notin>| used" by (auto simp: g'_def)
    from shape [of c] n j(1) obtain i where i: "S' c = (S c)\<lparr>id' := Some (Num i), ids := Some [Num i]\<rparr>"
      by auto
    with j(1) have "i = j" by simp
    with i j(2) show ?thesis by blast
  qed
  have dist: "id' (S' x) \<noteq> id' (S' y)"
    if "x \<in> set cs" and "id' (S x) = None" and "id' (S y) = None" and "x \<noteq> y" for x y
    using fold_assignId_distinct [OF f, of x y] assigns that by (simp add: g_def g'_def)
  have reserved: "id' (S' x) \<noteq> id' (S' y)"
    if x: "x \<in> set cs" and y: "y \<in> set (chunks C)" and gx: "id' (S x) = None"
      and gy: "id' (S y) \<noteq> None" for x y
  proof -
    obtain n where n: "id' (S' x) = Some (Num n)" "show_nat n |\<notin>| used"
      using new [OF x gx] by auto
    obtain i where i: "id' (S y) = Some i" using gy by auto
    then have "ident_string i |\<in>| used"
      using committed_chunk_reserved [OF y] by (simp add: used_def S_def)
    with n(2) have "Num n \<noteq> i" by auto
    moreover have "id' (S' y) = Some i" using keeps [of y] i by simp
    ultimately show ?thesis using n(1) by simp
  qed
  have idem: "assignAscendingChunkIds cs (assignAscendingChunkIds cs C) = assignAscendingChunkIds cs C"
  proof -
    define C' where "C' = assignAscendingChunkIds cs C"
    have all: "\<forall>c\<in>set cs. id' (chunkStore C' c) \<noteq> None"
      using assigns S' by (simp add: C'_def g'_def)
    have noop: "fold (assignChunk_skipping u) cs (k, chunkStore C') = (k, chunkStore C')" for u k
      using all by (induction cs) (auto simp: assignChunk_skipping_def)
    have "chunkStore (assignAscendingChunkIds cs C') = chunkStore C'"
      unfolding chunk_store_fold using noop by simp
    moreover have "assignAscendingChunkIds cs C' = C'\<lparr>chunkStore := chunkStore (assignAscendingChunkIds cs C')\<rparr>"
      by (simp add: assignAscendingChunkIds_def Let_def)
    ultimately show ?thesis by (simp add: C'_def)
  qed
  show ?thesis
    unfolding S' using keeps outside new dist reserved idem unfolding used_def by blast
qed

section \<open>The assigners on concrete inputs\<close>

lemma width_one: "max (min (case None of Some n \<Rightarrow> n | None \<Rightarrow> 0) 15) (int (optimalLength (length [x]))) = 1"
  by (simp add: optimalLength_def least_width.simps)

lemma width_two: "max (min (case None of Some n \<Rightarrow> n | None \<Rightarrow> 0) 15) (int (optimalLength (length [x, y]))) = 1"
  by (simp add: optimalLength_def least_width.simps)

lemma hash_7f: "getHashNumber (\<lambda>s. ''7f'') ''10'' 1 = Some 7" by code_simp
lemma hash_10: "getHashNumber (\<lambda>s. s) ''10'' 1 = Some 1" by code_simp
lemma hash_20: "getHashNumber (\<lambda>s. s) ''20'' 1 = Some 2" by code_simp

lemma probe_7f: "probe (\<lambda>s. ''7f'') {|''5''|} ''1'' 1 0 = Some 7"
  by (subst probe.simps) (simp add: hash_7f show_nat.simps digit_char_def show_int_def)

lemma probe_10: "probe (\<lambda>s. s) {||} ''1'' 1 0 = Some 1"
  by (subst probe.simps) (simp add: hash_10 show_nat.simps digit_char_def show_int_def)

lemma probe_20: "probe (\<lambda>s. s) {|''1''|} ''2'' 1 0 = Some 2"
  by (subst probe.simps) (simp add: hash_20 show_nat.simps digit_char_def show_int_def)

lemma total_order_compare_nat: "total_order compare_nat"
  by (auto simp: total_order_def compare_nat_def split: if_splits)

section \<open>The claims on the assigners\<close>

text \<open>
  C1. The claim has each item of a bucket given \<open>name + i\<close> for the least \<open>i\<close> such that
  \<open>name + i\<close> is neither a candidate name nor reserved. The loop of the code skips a
  suffix only when it is both: one item named \<open>a\<close>, with \<open>a\<close> and \<open>a0\<close> reserved, is given
  the reserved name \<open>a0\<close>, where the claim gives \<open>a1\<close>.
\<close>

theorem assignNames_reserved_suffix:
  "snd (snd (assignNames [1::nat] (\<lambda>i. ''a'') (\<lambda>i n. ''a?1f'') compare_nat {|''a'', ''a0''|}
          record_call [])) = [(1, ''a0'')] \<and>
   ''a0'' |\<in>| {|''a'', ''a0''|}"
  by (simp add: assignNames_def regroup_entry_def resolve_entry_def free_suffix.simps map_has_def
      sort_items_def show_nat.simps digit_char_def record_call_def compare_nat_def)

text \<open>
  C2. The claim has the names committed by a pass pairwise distinct and none of them in
  the reserved set as it was before the pass. Two items with the short and long name
  \<open>m\<close>, with \<open>m0\<close> reserved, are given \<open>m0\<close> and \<open>m1\<close>. Eleven items named \<open>a\<close> before one
  named \<open>a1\<close> are given \<open>a0\<close> to \<open>a10\<close>, and the last item is given \<open>a10\<close> again.
\<close>

theorem assignNames_not_unique:
  "snd (snd (assignNames [1::nat, 2] (\<lambda>i. ''m'') (\<lambda>i n. ''m'') compare_nat {|''m0''|}
          record_call [])) = [(1, ''m0''), (2, ''m1'')] \<and>
   snd (snd (assignNames [0::nat, 1, 2, 3, 4, 5, 6, 7, 8, 9, 10, 11]
          (\<lambda>i. if i = 11 then ''a1'' else ''a'') (\<lambda>i n. ''a'') compare_nat {||} record_call []))
     = [(0, ''a0''), (1, ''a1''), (2, ''a2''), (3, ''a3''), (4, ''a4''), (5, ''a5''),
        (6, ''a6''), (7, ''a7''), (8, ''a8''), (9, ''a9''), (10, ''a10''), (11, ''a10'')]"
proof -
  have "snd (snd (assignNames [1::nat, 2] (\<lambda>i. ''m'') (\<lambda>i n. ''m'') compare_nat {|''m0''|}
          record_call [])) = [(1, ''m0''), (2, ''m1'')]"
    by (simp add: assignNames_def regroup_entry_def resolve_entry_def free_suffix.simps map_has_def
        sort_items_def show_nat.simps digit_char_def record_call_def compare_nat_def)
  moreover have "snd (snd (assignNames [0::nat, 1, 2, 3, 4, 5, 6, 7, 8, 9, 10, 11]
          (\<lambda>i. if i = 11 then ''a1'' else ''a'') (\<lambda>i n. ''a'') compare_nat {||} record_call []))
     = [(0, ''a0''), (1, ''a1''), (2, ''a2''), (3, ''a3''), (4, ''a4''), (5, ''a5''),
        (6, ''a6''), (7, ''a7''), (8, ''a8''), (9, ''a9''), (10, ''a10''), (11, ''a10'')]"
    by code_simp
  ultimately show ?thesis by (rule conjI)
qed

text \<open>
  C3 (as amended). With a comparator that orders the items linearly,
  \<open>assignDeterministicIds\<close> does not depend on the order in which the items are given:
  two arrays with the same items give the same sorted array, the same reserved set
  and the same calls of \<open>assignId\<close>, or both do not return. In particular two runs from
  the same state agree.
\<close>

theorem deterministic_ids_order_independent:
  assumes "total_order comparator" "mset items1 = mset items2"
  shows "assignDeterministicIds md4 items1 getName comparator maxLength usedIds assignId st
       = assignDeterministicIds md4 items2 getName comparator maxLength usedIds assignId st"
  by (simp add: assignDeterministicIds_def sort_items_permutation [OF assms])

theorem deterministic_ids_order_independent_witness:
  "total_order compare_nat \<and> mset [2::nat, 1] = mset [1, 2] \<and>
   assignDeterministicIds (\<lambda>s. s) [2::nat, 1] show_nat compare_nat None {||} record_call []
     = assignDeterministicIds (\<lambda>s. s) [1, 2] show_nat compare_nat None {||} record_call [] \<and>
   (case assignDeterministicIds (\<lambda>s. s) [2::nat, 1] show_nat compare_nat None {||} record_call [] of
      None \<Rightarrow> False
    | Some (items', usedIds', calls) \<Rightarrow> items' = [1, 2] \<and> calls = [(1, 1), (2, 2)])"
proof -
  have m: "mset [2::nat, 1] = mset [1, 2]" by simp
  note t = deterministic_ids_order_independent [OF total_order_compare_nat m,
      of "\<lambda>s. s" show_nat None "{||}" record_call "[]"]
  have "case assignDeterministicIds (\<lambda>s. s) [2::nat, 1] show_nat compare_nat None {||} record_call [] of
      None \<Rightarrow> False
    | Some (items', usedIds', calls) \<Rightarrow> items' = [1, 2] \<and> calls = [(1, 1), (2, 2)]"
    unfolding assignDeterministicIds_def Let_def
    by (simp add: sort_items_def compare_nat_def width_two [simplified] show_nat.simps digit_char_def
        probe_10 probe_20 show_int_def record_call_def)
  with t m total_order_compare_nat show ?thesis by blast
qed

text \<open>
  The claim as stated covers \<open>assignNames\<close> as well. There the buckets are resolved in
  the order in which the items arrive: the items 1 (named \<open>a0\<close>), 2 and 3 (both named
  \<open>a\<close>), under a linear comparator, are given \<open>a0\<close>, \<open>a1\<close>, \<open>a2\<close> in the order 1, 2, 3 and
  \<open>a00\<close>, \<open>a0\<close>, \<open>a1\<close> in the order 2, 3, 1.
\<close>

theorem assignNames_order_dependent:
  "total_order compare_nat \<and> mset [1::nat, 2, 3] = mset [2, 3, 1] \<and>
   snd (snd (assignNames [1::nat, 2, 3] (\<lambda>i. if i = 1 then ''a0'' else ''a'') (\<lambda>i n. ''a'')
          compare_nat {||} record_call [])) = [(1, ''a0''), (2, ''a1''), (3, ''a2'')] \<and>
   snd (snd (assignNames [2::nat, 3, 1] (\<lambda>i. if i = 1 then ''a0'' else ''a'') (\<lambda>i n. ''a'')
          compare_nat {||} record_call [])) = [(2, ''a0''), (3, ''a1''), (1, ''a00'')]"
proof -
  have "snd (snd (assignNames [1::nat, 2, 3] (\<lambda>i. if i = 1 then ''a0'' else ''a'') (\<lambda>i n. ''a'')
          compare_nat {||} record_call [])) = [(1, ''a0''), (2, ''a1''), (3, ''a2'')]"
    by (simp add: assignNames_def regroup_entry_def resolve_entry_def free_suffix.simps map_has_def
        sort_items_def show_nat.simps digit_char_def record_call_def compare_nat_def)
  moreover have "snd (snd (assignNames [2::nat, 3, 1] (\<lambda>i. if i = 1 then ''a0'' else ''a'')
          (\<lambda>i n. ''a'') compare_nat {||} record_call [])) = [(2, ''a0''), (3, ''a1''), (1, ''a00'')]"
    by (simp add: assignNames_def regroup_entry_def resolve_entry_def free_suffix.simps map_has_def
        sort_items_def show_nat.simps digit_char_def record_call_def compare_nat_def)
  moreover have "mset [1::nat, 2, 3] = mset [2, 3, 1]" by simp
  ultimately show ?thesis using total_order_compare_nat by blast
qed

text \<open>
  C4 (as amended). \<open>assignAscendingModuleIds\<close> and \<open>assignAscendingChunkIds\<close> leave every
  module and chunk that has an id as it is, and every one outside the collection; each
  item of the collection without an id is given a number whose string is not among the
  used ids of the compilation, so it differs from every id of a module or chunk of the
  compilation; two such items get different numbers; and a second run changes nothing.
  A chunk that is given the number \<open>n\<close> has \<open>id = n\<close>, \<open>ids = [n]\<close> and its other fields
  as before.
\<close>

theorem ascending_ids_idempotent:
  "((\<forall>m. moduleId C m \<noteq> None \<longrightarrow> moduleId (assignAscendingModuleIds ms C) m = moduleId C m) \<and>
    (\<forall>m. m \<notin> set ms \<longrightarrow> moduleId (assignAscendingModuleIds ms C) m = moduleId C m) \<and>
    (\<forall>m\<in>set ms. moduleId C m = None \<longrightarrow>
       (\<exists>n. moduleId (assignAscendingModuleIds ms C) m = Some (Num n) \<and>
            show_nat n |\<notin>| getUsedModuleIds C)) \<and>
    (\<forall>x\<in>set ms. \<forall>y\<in>set ms. moduleId C x = None \<and> moduleId C y = None \<and> x \<noteq> y \<longrightarrow>
       moduleId (assignAscendingModuleIds ms C) x \<noteq> moduleId (assignAscendingModuleIds ms C) y) \<and>
    (\<forall>x\<in>set ms. \<forall>y\<in>set (modules C). moduleId C x = None \<and> moduleId C y \<noteq> None \<longrightarrow>
       moduleId (assignAscendingModuleIds ms C) x \<noteq> moduleId (assignAscendingModuleIds ms C) y) \<and>
    assignAscendingModuleIds ms (assignAscendingModuleIds ms C) = assignAscendingModuleIds ms C) \<and>
   ((\<forall>c. id' (chunkStore C c) \<noteq> None \<longrightarrow>
       chunkStore (assignAscendingChunkIds cs C) c = chunkStore C c) \<and>
    (\<forall>c. c \<notin> set cs \<longrightarrow> chunkStore (assignAscendingChunkIds cs C) c = chunkStore C c) \<and>
    (\<forall>c\<in>set cs. id' (chunkStore C c) = None \<longrightarrow>
       (\<exists>n. chunkStore (assignAscendingChunkIds cs C) c
               = (chunkStore C c)\<lparr>id' := Some (Num n), ids := Some [Num n]\<rparr> \<and>
            show_nat n |\<notin>| getUsedChunkIds C)) \<and>
    (\<forall>x\<in>set cs. \<forall>y\<in>set cs. id' (chunkStore C x) = None \<and> id' (chunkStore C y) = None \<and> x \<noteq> y \<longrightarrow>
       id' (chunkStore (assignAscendingChunkIds cs C) x)
         \<noteq> id' (chunkStore (assignAscendingChunkIds cs C) y)) \<and>
    (\<forall>x\<in>set cs. \<forall>y\<in>set (chunks C). id' (chunkStore C x) = None \<and> id' (chunkStore C y) \<noteq> None \<longrightarrow>
       id' (chunkStore (assignAscendingChunkIds cs C) x)
         \<noteq> id' (chunkStore (assignAscendingChunkIds cs C) y)) \<and>
    assignAscendingChunkIds cs (assignAscendingChunkIds cs C) = assignAscendingChunkIds cs C)"
  using ascending_modules [of C ms] ascending_chunks [of C cs] by (rule conjI)

lemma sample_chunk_ids:
  "id' (chunkStore (assignAscendingChunkIds [10, 11, 12] sample_compilation) 10) = Some (Num 2) \<and>
   id' (chunkStore (assignAscendingChunkIds [10, 11, 12] sample_compilation) 11) = Some (Num 4) \<and>
   id' (chunkStore (assignAscendingChunkIds [10, 11, 12] sample_compilation) 12) = Some (Num 5) \<and>
   ids (chunkStore (assignAscendingChunkIds [10, 11, 12] sample_compilation) 12) = Some [Num 5]"
  by (simp add: assignAscendingChunkIds_def getUsedChunkIds_def sample_compilation_def
      map_filter_def assignChunk_skipping_def next_unused.simps show_nat.simps digit_char_def Let_def)

lemma sample_module_ids:
  "moduleId (assignAscendingModuleIds [1, 2] sample_compilation) 1 = Some (Str ''main'') \<and>
   moduleId (assignAscendingModuleIds [1, 2] sample_compilation) 2 = Some (Num 0)"
  by (simp add: assignAscendingModuleIds_def getUsedModuleIds_def sample_compilation_def
      map_filter_def assignId_skipping_def next_unused.simps show_nat.simps digit_char_def Let_def)

theorem ascending_ids_idempotent_witness:
  "(10 \<in> set [10, 11, 12::nat] \<and> id' (chunkStore sample_compilation 10) = None) \<and>
   id' (chunkStore (assignAscendingChunkIds [10, 11, 12] sample_compilation) 10) = Some (Num 2) \<and>
   id' (chunkStore (assignAscendingChunkIds [10, 11, 12] sample_compilation) 11) = Some (Num 4) \<and>
   id' (chunkStore (assignAscendingChunkIds [10, 11, 12] sample_compilation) 12) = Some (Num 5) \<and>
   moduleId (assignAscendingModuleIds [1, 2] sample_compilation) 1 = Some (Str ''main'') \<and>
   moduleId (assignAscendingModuleIds [1, 2] sample_compilation) 2 = Some (Num 0) \<and>
   assignAscendingChunkIds [10, 11, 12] (assignAscendingChunkIds [10, 11, 12] sample_compilation)
     = assignAscendingChunkIds [10, 11, 12] sample_compilation \<and>
   assignAscendingModuleIds [1, 2] (assignAscendingModuleIds [1, 2] sample_compilation)
     = assignAscendingModuleIds [1, 2] sample_compilation"
proof -
  note t = ascending_ids_idempotent [of sample_compilation "[1, 2]" "[10, 11, 12]"]
  have h: "10 \<in> set [10, 11, 12::nat] \<and> id' (chunkStore sample_compilation 10) = None"
    by (simp add: sample_compilation_def)
  from t have
    "assignAscendingChunkIds [10, 11, 12] (assignAscendingChunkIds [10, 11, 12] sample_compilation)
       = assignAscendingChunkIds [10, 11, 12] sample_compilation"
    "assignAscendingModuleIds [1, 2] (assignAscendingModuleIds [1, 2] sample_compilation)
       = assignAscendingModuleIds [1, 2] sample_compilation"
    by blast+
  with h sample_chunk_ids sample_module_ids show ?thesis by blast
qed

text \<open>
  The claim as stated covers \<open>assignDeterministicIds\<close> as well, which does not look at
  the id an item has: it draws an id for every item it is given and passes it to
  \<open>assignId\<close>. An item whose id is 5, with \<open>5\<close> reserved and a callback that sets the id,
  never keeps the id 5, whatever the digest; with a digest whose first digit is 7 it
  gets the id 7.
\<close>

lemma reassign_any_digest:
  "case assignDeterministicIds md4 [1::nat] show_nat (\<lambda>x y. 0) None {|''5''|}
          (\<lambda>item n st. st(item \<mapsto> n)) [1 \<mapsto> 5] of
     None \<Rightarrow> True
   | Some (items', usedIds', st') \<Rightarrow> st' 1 \<noteq> Some 5"
proof (cases "probe md4 {|''5''|} (show_nat 1) (max (min 0 15) (int (optimalLength 1))) 0")
  case None
  then show ?thesis by (simp add: assignDeterministicIds_def sort_items_def)
next
  case (Some n)
  from probe_fresh [OF Some] have "n \<noteq> 5"
    by (auto simp: show_int_def show_nat.simps digit_char_def)
  with Some show ?thesis by (simp add: assignDeterministicIds_def sort_items_def)
qed

lemma reassign_7f:
  "case assignDeterministicIds (\<lambda>s. ''7f'') [1::nat] show_nat (\<lambda>x y. 0) None {|''5''|}
          (\<lambda>item n st. st(item \<mapsto> n)) [1 \<mapsto> 5] of
     None \<Rightarrow> False | Some (items', usedIds', st') \<Rightarrow> st' 1 = Some 7"
  unfolding assignDeterministicIds_def Let_def
  by (simp add: sort_items_def width_one [simplified] show_nat.simps digit_char_def probe_7f)

theorem deterministic_ids_reassign:
  "(\<forall>md4. case assignDeterministicIds md4 [1::nat] show_nat (\<lambda>x y. 0) None {|''5''|}
            (\<lambda>item n st. st(item \<mapsto> n)) [1 \<mapsto> 5] of
       None \<Rightarrow> True
     | Some (items', usedIds', st') \<Rightarrow> st' 1 \<noteq> Some 5) \<and>
   (case assignDeterministicIds (\<lambda>s. ''7f'') [1::nat] show_nat (\<lambda>x y. 0) None {|''5''|}
          (\<lambda>item n st. st(item \<mapsto> n)) [1 \<mapsto> 5] of
      None \<Rightarrow> False | Some (items', usedIds', st') \<Rightarrow> st' 1 = Some 7)"
  using reassign_any_digest reassign_7f by blast

end
